theory Spec2Isabelle
  imports Complex_Main
begin

section \<open>Data model\<close>

text \<open>
  The decoder works on a trie of \<^verbatim>\<open>PathTrie\<close> objects linked by raw pointers: every node
  owns its children (\<^verbatim>\<open>children_\<close>, a vector of (label, child) pairs) and has a back
  pointer \<^verbatim>\<open>parent\<close>. The embedding keeps the trie as a tree value. A \<^verbatim>\<open>PathTrie*\<close> is
  the list of child labels that leads from the root to the node (the root is the empty
  list), so \<^verbatim>\<open>parent\<close> of a pointer is \<open>butlast\<close> of it and the null parent belongs to the
  root only. A label selects the first child that carries it, as the linear scans of
  \<^verbatim>\<open>get_path_trie\<close> and \<^verbatim>\<open>remove\<close> do. A pointer that leads to no node (the
  object was deleted) is an error of the model when it is dereferenced.
  In the tries a decoder reaches, the children of a node have distinct labels and every
  child is listed under its own character (\<open>reachable_wf\<close> below), so a pointer leads to
  one node only and \<^verbatim>\<open>remove\<close> erases the node it is called on.

  The C++ \<^verbatim>\<open>float\<close> and \<^verbatim>\<open>double\<close> values are idealised as reals: rounding and the
  conversions between the two are not modelled.
\<close>

type_synonym ptr = "int list"

datatype error = NullPointer | DanglingPointer | OutOfBounds

record PathTrie =
  log_prob_b_prev :: real
  log_prob_nb_prev :: real
  log_prob_b_cur :: real
  log_prob_nb_cur :: real
  log_prob_c :: real
  score :: real
  character :: int
  timestep :: int
  exists :: bool
  dictionary_state :: int
  has_dictionary :: bool

datatype trie = Trie (node: PathTrie) (children: "(int \<times> trie) list")

text \<open>\<^verbatim>\<open>ROOT_ = -1\<close>, the character of the root.\<close>

definition ROOT :: int where
  "ROOT = - 1"

text \<open>
  The lexicon FST (OpenFst, not part of the repository). \<open>Start\<close> and \<open>Final\<close> are the
  methods of the FST; \<open>Find s l\<close> stands for \<^verbatim>\<open>matcher_->SetState(s); matcher_->Find(l)\<close>
  and gives \<^verbatim>\<open>matcher_->Value().nextstate\<close> when an arc was found. \<open>FSTZERO\<close> is
  \<^verbatim>\<open>fst::TropicalWeight::Zero()\<close>.
\<close>

datatype TropicalWeight = FSTZERO | Weight real

record FstType =
  Start :: int
  Final :: "int \<Rightarrow> TropicalWeight"
  Find :: "int \<Rightarrow> int \<Rightarrow> int option"

text \<open>
  The Scorer. Only \<^verbatim>\<open>scorer.h\<close> is in the sources: the fields \<open>alpha\<close>, \<open>beta\<close>,
  \<open>max_order\<close>, \<open>is_utf8_mode\<close> and \<open>dictionary\<close> are declared there, and the methods
  implemented elsewhere are taken as they are declared, as functions of their arguments
  (a \<^verbatim>\<open>PathTrie*\<close> argument is the trie together with the pointer, \<open>None\<close> for a null
  pointer).
\<close>

record Scorer =
  alpha :: real
  beta :: real
  max_order :: nat
  is_utf8_mode :: bool
  dictionary :: FstType
  is_scoring_boundary :: "trie \<Rightarrow> ptr option \<Rightarrow> int \<Rightarrow> bool"
  make_ngram :: "trie \<Rightarrow> ptr \<Rightarrow> string list"
  get_log_cond_prob :: "string list \<Rightarrow> bool \<Rightarrow> bool \<Rightarrow> real"
  get_sent_log_prob :: "string list \<Rightarrow> real"
  split_labels_into_scored_units :: "int list \<Rightarrow> string list"

definition get_max_order :: "Scorer \<Rightarrow> nat" where
  "get_max_order sc = max_order sc"

definition OOV_SCORE :: real where
  "OOV_SCORE = - 1000"

text \<open>
  What the decoder uses of \<^verbatim>\<open>decoder_utils.h\<close>, \<^verbatim>\<open><cmath>\<close> and \<^verbatim>\<open><algorithm>\<close>; none of
  it is in the sources, so it is a parameter of every function below. The comparators
  read the nodes their pointer arguments lead to, so they take the trie;
  \<open>prefix_compare_external\<close> also takes the map of rescoring scores.
\<close>

record lib =
  NUM_FLT_INF :: real
  log_sum_exp :: "real \<Rightarrow> real \<Rightarrow> real"
  std_log :: "real \<Rightarrow> real"
  get_pruned_log_probs :: "(nat \<Rightarrow> real) \<Rightarrow> nat \<Rightarrow> real \<Rightarrow> nat \<Rightarrow> (nat \<times> real) list"
  prefix_compare :: "trie \<Rightarrow> ptr \<Rightarrow> ptr \<Rightarrow> bool"
  prefix_compare_external :: "trie \<Rightarrow> (ptr \<Rightarrow> real option) \<Rightarrow> ptr \<Rightarrow> ptr \<Rightarrow> bool"
  partial_sort :: "(ptr \<Rightarrow> ptr \<Rightarrow> bool) \<Rightarrow> nat \<Rightarrow> ptr list \<Rightarrow> ptr list"
  nth_element :: "(ptr \<Rightarrow> ptr \<Rightarrow> bool) \<Rightarrow> nat \<Rightarrow> ptr list \<Rightarrow> ptr list"

record DecoderState =
  abs_time_step :: int
  space_id :: int
  blank_id :: nat
  beam_size :: nat
  cutoff_prob :: real
  cutoff_top_n :: nat
  ext_scorer :: "Scorer option"
  prefixes :: "ptr list"
  prefix_root :: trie

record Output =
  tokens :: "int list"
  timesteps :: "int list"
  confidence :: real

section \<open>PathTrie\<close>

text \<open>The constructor \<^verbatim>\<open>PathTrie::PathTrie()\<close>.\<close>

definition PathTrie_new :: "real \<Rightarrow> PathTrie" where
  "PathTrie_new flt_inf =
     \<lparr> log_prob_b_prev = - flt_inf, log_prob_nb_prev = - flt_inf,
       log_prob_b_cur = - flt_inf, log_prob_nb_cur = - flt_inf,
       log_prob_c = - flt_inf, score = - flt_inf,
       character = ROOT, timestep = 0, exists = True,
       dictionary_state = 0, has_dictionary = False \<rparr>"

text \<open>Dereferencing a pointer, and writing the object it leads to.\<close>

fun lookup :: "trie \<Rightarrow> ptr \<Rightarrow> trie option" where
  "lookup t [] = Some t"
| "lookup t (c # p) =
     (case map_of (children t) c of
        None \<Rightarrow> None
      | Some ch \<Rightarrow> lookup ch p)"

fun replace_child :: "int \<Rightarrow> trie \<Rightarrow> (int \<times> trie) list \<Rightarrow> (int \<times> trie) list" where
  "replace_child k v [] = []"
| "replace_child k v (kc # cs) =
     (if fst kc = k then (fst kc, v) # cs else kc # replace_child k v cs)"

fun store :: "trie \<Rightarrow> ptr \<Rightarrow> trie \<Rightarrow> trie" where
  "store t [] v = v"
| "store t (c # p) v =
     (case map_of (children t) c of
        None \<Rightarrow> t
      | Some ch \<Rightarrow> Trie (node t) (replace_child c (store ch p v) (children t)))"

definition set_node :: "(PathTrie \<Rightarrow> PathTrie) \<Rightarrow> trie \<Rightarrow> trie" where
  "set_node f this = Trie (f (node this)) (children this)"

text \<open>
  \<^verbatim>\<open>PathTrie::get_path_trie\<close>, on the node \<open>this\<close>. The result is the node after the call
  and whether the pointer returned is non-null; the pointer returned is then the child
  for \<open>new_char\<close>. \<open>D\<close> is the FST that \<^verbatim>\<open>dictionary_\<close> and \<^verbatim>\<open>matcher_\<close> of every node of one
  decoder point to (null when no Scorer was given).
\<close>

definition get_path_trie ::
  "real \<Rightarrow> FstType option \<Rightarrow> trie \<Rightarrow> int \<Rightarrow> int \<Rightarrow> real \<Rightarrow> bool \<Rightarrow> error + (trie \<times> bool)" where
  "get_path_trie flt_inf D this new_char new_timestep cur_log_prob_c reset =
     (case map_of (children this) new_char of
        Some child \<Rightarrow>
          (let child1 =
                 (if log_prob_c (node child) < cur_log_prob_c \<and> children child = []
                  then set_node (\<lambda>f. f\<lparr>log_prob_c := cur_log_prob_c,
                                          timestep := new_timestep\<rparr>) child
                  else child);
               child2 =
                 (if \<not> exists (node child1)
                  then set_node (\<lambda>f. f\<lparr>exists := True,
                                          log_prob_b_prev := - flt_inf,
                                          log_prob_nb_prev := - flt_inf,
                                          log_prob_b_cur := - flt_inf,
                                          log_prob_nb_cur := - flt_inf\<rparr>) child1
                  else child1)
           in Inr (Trie (node this) (replace_child new_char child2 (children this)), True))
      | None \<Rightarrow>
          (if has_dictionary (node this) then
             (case D of
                None \<Rightarrow> Inl NullPointer
              | Some dict \<Rightarrow>
                  (case Find dict (dictionary_state (node this)) (new_char + 1) of
                     None \<Rightarrow>
                       (let is_final = (Final dict (dictionary_state (node this)) \<noteq> FSTZERO)
                        in if is_final \<and> reset
                           then Inr (set_node (\<lambda>f. f\<lparr>dictionary_state := Start dict\<rparr>) this,
                                     False)
                           else Inr (this, False))
                   | Some nextstate \<Rightarrow>
                       (let is_final = (Final dict nextstate \<noteq> FSTZERO);
                            new_path =
                              Trie ((PathTrie_new flt_inf)
                                      \<lparr>character := new_char,
                                       timestep := new_timestep,
                                       has_dictionary := True,
                                       log_prob_c := cur_log_prob_c,
                                       dictionary_state :=
                                         (if is_final \<and> reset then Start dict else nextstate)\<rparr>) []
                        in Inr (Trie (node this) (children this @ [(new_char, new_path)]),
                                True))))
           else
             (let new_path =
                    Trie ((PathTrie_new flt_inf)
                            \<lparr>character := new_char,
                             timestep := new_timestep,
                             log_prob_c := cur_log_prob_c\<rparr>) []
              in Inr (Trie (node this) (children this @ [(new_char, new_path)]), True))))"

text \<open>\<^verbatim>\<open>PathTrie::get_path_vec\<close>: the two vectors are passed in and returned.\<close>

definition push_path :: "trie \<Rightarrow> int list \<times> int list \<Rightarrow> int list \<times> int list" where
  "push_path this ot =
     (if character (node this) \<noteq> ROOT
      then (fst ot @ [character (node this)], snd ot @ [timestep (node this)])
      else ot)"

function get_path_vec :: "trie \<Rightarrow> ptr \<Rightarrow> int list \<times> int list \<Rightarrow> error + (int list \<times> int list)" where
  "get_path_vec rt p ot =
     (case lookup rt p of
        None \<Rightarrow> Inl DanglingPointer
      | Some this \<Rightarrow>
          (if p \<noteq> [] then
             (case get_path_vec rt (butlast p) ot of
                Inl e \<Rightarrow> Inl e
              | Inr ot1 \<Rightarrow> Inr (push_path this ot1))
           else Inr (push_path this ot)))"
  by pat_completeness auto
termination
  by (relation "measure (\<lambda>(rt, p, ot). length p)") auto

declare get_path_vec.simps [simp del]

text \<open>
  \<^verbatim>\<open>PathTrie::iterate_to_vec\<close>: \<open>this_ptr\<close> is the pointer to the node visited, \<open>output\<close>
  the vector. The loop over \<^verbatim>\<open>children_\<close> is \<open>iterate_children\<close>.
\<close>

definition commit :: "lib \<Rightarrow> PathTrie \<Rightarrow> PathTrie" where
  "commit L f =
     (let f1 = f\<lparr>log_prob_b_prev := log_prob_b_cur f, log_prob_nb_prev := log_prob_nb_cur f\<rparr>;
          f2 = f1\<lparr>log_prob_b_cur := - NUM_FLT_INF L, log_prob_nb_cur := - NUM_FLT_INF L\<rparr>
      in f2\<lparr>score := log_sum_exp L (log_prob_b_prev f2) (log_prob_nb_prev f2)\<rparr>)"

fun iterate_to_vec :: "lib \<Rightarrow> ptr \<Rightarrow> trie \<Rightarrow> ptr list \<Rightarrow> trie \<times> ptr list"
  and iterate_children ::
    "lib \<Rightarrow> ptr \<Rightarrow> (int \<times> trie) list \<Rightarrow> ptr list \<Rightarrow> (int \<times> trie) list \<times> ptr list" where
  "iterate_to_vec L this_ptr (Trie f cs) output =
     (let f1 = (if exists f then commit L f else f);
          output1 = (if exists f then output @ [this_ptr] else output);
          r = iterate_children L this_ptr cs output1
      in (Trie f1 (fst r), snd r))"
| "iterate_children L this_ptr [] output = ([], output)"
| "iterate_children L this_ptr (kc # cs) output =
     (let r1 = iterate_to_vec L (this_ptr @ [fst kc]) (snd kc) output;
          r2 = iterate_children L this_ptr cs (snd r1)
      in ((fst kc, fst r1) # fst r2, snd r2))"

text \<open>
  \<^verbatim>\<open>PathTrie::remove\<close>, called on the node \<open>p\<close> leads to. \<^verbatim>\<open>delete this\<close> frees a node
  that its parent no longer lists, which is the erasure from the parent's children
  here. On the root (null \<^verbatim>\<open>parent\<close>) with no children the source dereferences null.
\<close>

fun erase_child :: "int \<Rightarrow> (int \<times> trie) list \<Rightarrow> (int \<times> trie) list" where
  "erase_child k [] = []"
| "erase_child k (kc # cs) = (if fst kc = k then cs else kc # erase_child k cs)"

function remove :: "trie \<Rightarrow> ptr \<Rightarrow> error + trie" where
  "remove rt p =
     (case lookup rt p of
        None \<Rightarrow> Inl DanglingPointer
      | Some this \<Rightarrow>
          (let rt1 = store rt p (set_node (\<lambda>f. f\<lparr>exists := False\<rparr>) this)
           in if children this = [] then
                (if p = [] then Inl NullPointer
                 else
                   (case lookup rt1 (butlast p) of
                      None \<Rightarrow> Inl DanglingPointer
                    | Some parent \<Rightarrow>
                        (let parent1 = Trie (node parent)
                                         (erase_child (character (node this)) (children parent));
                             rt2 = store rt1 (butlast p) parent1
                         in if children parent1 = [] \<and> \<not> exists (node parent1)
                            then remove rt2 (butlast p)
                            else Inr rt2)))
              else Inr rt1))"
  by pat_completeness auto
termination
  by (relation "measure (\<lambda>(rt, p). length p)") auto

declare remove.simps [simp del]

text \<open>
  Modelled from the spec: \<^verbatim>\<open>path_trie.h\<close>, which defines \<^verbatim>\<open>is_empty\<close>, is not in the sources.
  The empty prefix is the root, the node whose character is the sentinel \<open>ROOT\<close>.
\<close>

definition is_empty :: "trie \<Rightarrow> bool" where
  "is_empty this = (character (node this) = ROOT)"

text \<open>The field \<^verbatim>\<open>parent\<close> of the node a pointer leads to: null at the root.\<close>

definition parent :: "ptr \<Rightarrow> ptr option" where
  "parent p = (if p = [] then None else Some (butlast p))"

section \<open>DecoderState\<close>

text \<open>
  \<^verbatim>\<open>DecoderState::init\<close>, on a fresh object. The alphabet is not in the sources: the two
  values read from it are arguments.
\<close>

definition DecoderState_init ::
  "lib \<Rightarrow> int \<Rightarrow> nat \<Rightarrow> nat \<Rightarrow> real \<Rightarrow> nat \<Rightarrow> Scorer option \<Rightarrow> DecoderState" where
  "DecoderState_init L alphabet_space_label alphabet_size beam_size0 cutoff_prob0 cutoff_top_n0
       ext_scorer0 =
     (let root0 = (PathTrie_new (NUM_FLT_INF L))\<lparr>score := 0, log_prob_b_prev := 0\<rparr>;
          root1 =
            (case ext_scorer0 of
               None \<Rightarrow> root0
             | Some sc \<Rightarrow>
                 root0\<lparr>dictionary_state := Start (dictionary sc), has_dictionary := True\<rparr>)
      in \<lparr> abs_time_step = 0,
           space_id = alphabet_space_label,
           blank_id = alphabet_size,
           beam_size = beam_size0,
           cutoff_prob = cutoff_prob0,
           cutoff_top_n = cutoff_top_n0,
           ext_scorer = ext_scorer0,
           prefixes = [[]],
           prefix_root = Trie root1 [] \<rparr>)"

text \<open>
  The log probability accumulated into the new prefix (lines 103 to 131 of
  \<^verbatim>\<open>ctc_beam_search_decoder.cpp\<close>): \<open>this\<close> is the node of \<^verbatim>\<open>prefix\<close>, \<open>rt\<close> the trie after
  \<^verbatim>\<open>get_path_trie\<close>.
\<close>

definition new_prefix_log_p ::
  "lib \<Rightarrow> Scorer option \<Rightarrow> trie \<Rightarrow> ptr \<Rightarrow> trie \<Rightarrow> ptr \<Rightarrow> nat \<Rightarrow> real \<Rightarrow> real" where
  "new_prefix_log_p L scorer rt prefix this prefix_new c log_prob_c0 =
     (let log_p =
            (if int c = character (node this) \<and> log_prob_b_prev (node this) > - NUM_FLT_INF L
             then log_prob_c0 + log_prob_b_prev (node this)
             else if int c \<noteq> character (node this)
             then log_prob_c0 + score (node this)
             else - NUM_FLT_INF L)
      in case scorer of
           None \<Rightarrow> log_p
         | Some sc \<Rightarrow>
             (let prefix_to_score = (if is_utf8_mode sc then prefix_new else prefix)
              in if is_scoring_boundary sc rt (Some prefix_to_score) (int c) then
                   (let ngram = make_ngram sc rt prefix_to_score;
                        bos = (length ngram < get_max_order sc);
                        score0 = get_log_cond_prob sc ngram bos False * alpha sc
                    in log_p + score0 + beta sc)
                 else log_p))"

text \<open>
  Lines 99 to 135: the new prefix is fetched with \<^verbatim>\<open>get_path_trie\<close> and, when it is not
  null, the log probability is accumulated into it. The pointer returned by
  \<^verbatim>\<open>get_path_trie\<close> is the child of \<^verbatim>\<open>prefix\<close> for the label.
\<close>

definition extend_prefix ::
  "lib \<Rightarrow> nat \<Rightarrow> real \<Rightarrow> ptr \<Rightarrow> DecoderState \<Rightarrow> error + DecoderState" where
  "extend_prefix L c log_prob_c0 prefix st =
     (case lookup (prefix_root st) prefix of
        None \<Rightarrow> Inl DanglingPointer
      | Some this \<Rightarrow>
          (case get_path_trie (NUM_FLT_INF L) (map_option dictionary (ext_scorer st)) this
                  (int c) (abs_time_step st) log_prob_c0 True of
             Inl e \<Rightarrow> Inl e
           | Inr (this2, found) \<Rightarrow>
               (let rt2 = store (prefix_root st) prefix this2;
                    prefix_new = prefix @ [int c]
                in if found then
                     (case lookup rt2 prefix_new of
                        None \<Rightarrow> Inl DanglingPointer
                      | Some child \<Rightarrow>
                          (let log_p = new_prefix_log_p L (ext_scorer st) rt2 prefix this2
                                         prefix_new c log_prob_c0
                           in Inr (st\<lparr>prefix_root := store rt2 prefix_new
                                     (set_node (\<lambda>f. f\<lparr>log_prob_nb_cur :=
                                        log_sum_exp L (log_prob_nb_cur f) log_p\<rparr>) child)\<rparr>)))
                   else Inr (st\<lparr>prefix_root := rt2\<rparr>))))"

text \<open>
  One pass of the loop over the prefixes, after the cutoff test (lines 86 to 135), for
  the label \<open>c\<close> with log probability \<open>log_prob_c0\<close>.
\<close>

definition prefix_step ::
  "lib \<Rightarrow> nat \<Rightarrow> real \<Rightarrow> ptr \<Rightarrow> DecoderState \<Rightarrow> error + DecoderState" where
  "prefix_step L c log_prob_c0 prefix st =
     (case lookup (prefix_root st) prefix of
        None \<Rightarrow> Inl DanglingPointer
      | Some this \<Rightarrow>
          if c = blank_id st then
            Inr (st\<lparr>prefix_root := store (prefix_root st) prefix
                   (set_node (\<lambda>f. f\<lparr>log_prob_b_cur :=
                        log_sum_exp L (log_prob_b_cur f) (log_prob_c0 + score f)\<rparr>) this)\<rparr>)
          else
            (let st1 =
                   (if int c = character (node this)
                    then st\<lparr>prefix_root := store (prefix_root st) prefix
                           (set_node (\<lambda>f. f\<lparr>log_prob_nb_cur :=
                              log_sum_exp L (log_prob_nb_cur f)
                                (log_prob_c0 + log_prob_nb_prev f)\<rparr>) this)\<rparr>
                    else st)
             in extend_prefix L c log_prob_c0 prefix st1))"

text \<open>
  The loop over the prefixes (lines 80 to 136), on the prefixes still to visit; the
  caller passes the first \<open>beam_size\<close> entries of the beam. The first equation with a
  prefix is the \<^verbatim>\<open>break\<close>.
\<close>

fun prefix_loop ::
  "lib \<Rightarrow> bool \<Rightarrow> real \<Rightarrow> nat \<Rightarrow> real \<Rightarrow> ptr list \<Rightarrow> DecoderState \<Rightarrow> error + DecoderState" where
  "prefix_loop L full_beam min_cutoff c log_prob_c0 [] st = Inr st"
| "prefix_loop L full_beam min_cutoff c log_prob_c0 (prefix # ps) st =
     (case lookup (prefix_root st) prefix of
        None \<Rightarrow> Inl DanglingPointer
      | Some this \<Rightarrow>
          if full_beam \<and> log_prob_c0 + score (node this) < min_cutoff then Inr st
          else
            (case prefix_step L c log_prob_c0 prefix st of
               Inl e \<Rightarrow> Inl e
             | Inr st1 \<Rightarrow> prefix_loop L full_beam min_cutoff c log_prob_c0 ps st1))"

text \<open>The loop over the pruned labels (lines 76 to 137).\<close>

fun label_loop ::
  "lib \<Rightarrow> bool \<Rightarrow> real \<Rightarrow> (nat \<times> real) list \<Rightarrow> DecoderState \<Rightarrow> error + DecoderState" where
  "label_loop L full_beam min_cutoff [] st = Inr st"
| "label_loop L full_beam min_cutoff (cl # log_prob_idx) st =
     (case prefix_loop L full_beam min_cutoff (fst cl) (snd cl)
             (take (beam_size st) (prefixes st)) st of
        Inl e \<Rightarrow> Inl e
      | Inr st1 \<Rightarrow> label_loop L full_beam min_cutoff log_prob_idx st1)"

text \<open>
  Lines 59 to 71: the beam after the partial sort, \<open>min_cutoff\<close> and \<open>full_beam\<close>. With a
  Scorer and no prefix to read (\<open>num_prefixes = 0\<close>) the source indexes the vector out of
  its bounds.
\<close>

definition full_beam_cutoff ::
  "lib \<Rightarrow> (nat \<Rightarrow> real) \<Rightarrow> DecoderState \<Rightarrow> error + (ptr list \<times> real \<times> bool)" where
  "full_beam_cutoff L prob st =
     (case ext_scorer st of
        None \<Rightarrow> Inr (prefixes st, - NUM_FLT_INF L, False)
      | Some sc \<Rightarrow>
          (let num_prefixes = min (length (prefixes st)) (beam_size st);
               prefixes1 = partial_sort L (prefix_compare L (prefix_root st)) num_prefixes
                             (prefixes st)
           in if num_prefixes = 0 \<or> length prefixes1 \<le> num_prefixes - 1 then Inl OutOfBounds
              else
                (case lookup (prefix_root st) (prefixes1 ! (num_prefixes - 1)) of
                   None \<Rightarrow> Inl DanglingPointer
                 | Some this \<Rightarrow>
                     Inr (prefixes1,
                          score (node this) + std_log L (prob (blank_id st)) - max 0 (beta sc),
                          num_prefixes = beam_size st))))"

text \<open>Lines 149 to 151: \<^verbatim>\<open>remove()\<close> on every prefix past the first \<open>beam_size\<close>.\<close>

fun remove_loop :: "ptr list \<Rightarrow> trie \<Rightarrow> error + trie" where
  "remove_loop [] rt = Inr rt"
| "remove_loop (prefix # ps) rt =
     (case remove rt prefix of
        Inl e \<Rightarrow> Inl e
      | Inr rt1 \<Rightarrow> remove_loop ps rt1)"

text \<open>Lines 143 to 155: only the top \<open>beam_size\<close> prefixes are preserved.\<close>

definition prune :: "lib \<Rightarrow> DecoderState \<Rightarrow> error + DecoderState" where
  "prune L st =
     (if length (prefixes st) > beam_size st then
        (let prefixes1 = nth_element L (prefix_compare L (prefix_root st)) (beam_size st)
                           (prefixes st)
         in case remove_loop (drop (beam_size st) prefixes1) (prefix_root st) of
              Inl e \<Rightarrow> Inl e
            | Inr rt1 \<Rightarrow> Inr (st\<lparr>prefix_root := rt1, prefixes := take (beam_size st) prefixes1\<rparr>))
      else Inr st)"

text \<open>
  The body of the loop over time (lines 57 to 155), on the row \<open>prob\<close> of the frame.
\<close>

definition next_frame :: "lib \<Rightarrow> (nat \<Rightarrow> real) \<Rightarrow> nat \<Rightarrow> DecoderState \<Rightarrow> error + DecoderState" where
  "next_frame L prob class_dim st =
     (case full_beam_cutoff L prob st of
        Inl e \<Rightarrow> Inl e
      | Inr (prefixes1, min_cutoff, full_beam) \<Rightarrow>
          (let log_prob_idx = get_pruned_log_probs L prob class_dim (cutoff_prob st)
                                (cutoff_top_n st)
           in case label_loop L full_beam min_cutoff log_prob_idx (st\<lparr>prefixes := prefixes1\<rparr>) of
                Inl e \<Rightarrow> Inl e
              | Inr st1 \<Rightarrow>
                  (let r = iterate_to_vec L [] (prefix_root st1) []
                   in prune L (st1\<lparr>prefix_root := fst r, prefixes := snd r\<rparr>))))"

text \<open>
  \<^verbatim>\<open>abs_time_step_\<close> is an \<^verbatim>\<open>int\<close> (\<^verbatim>\<open>get_path_trie\<close> takes it as \<^verbatim>\<open>int new_timestep\<close>),
  of 32 bits in two's complement: \<open>int32 x\<close> is the value such an \<^verbatim>\<open>int\<close> holds of the
  integer \<open>x\<close>, so \<^verbatim>\<open>++abs_time_step_\<close> at \<open>2147483647\<close> gives \<open>- 2147483648\<close>.
\<close>

definition int32 :: "int \<Rightarrow> int" where
  "int32 x = (x + 2147483648) mod 4294967296 - 2147483648"

text \<open>
  \<^verbatim>\<open>DecoderState::next\<close>: \<open>probs\<close> is the flat array, read at
  \<open>rel_time_step * class_dim + i\<close>. \<open>rel_time_step\<close> is a \<^verbatim>\<open>size_t\<close>, which no run of the
  loop exhausts, and \<open>time_dim\<close> is taken non-negative.
\<close>

function next_loop ::
  "lib \<Rightarrow> (nat \<Rightarrow> real) \<Rightarrow> nat \<Rightarrow> nat \<Rightarrow> nat \<Rightarrow> DecoderState \<Rightarrow> error + DecoderState" where
  "next_loop L probs time_dim class_dim rel_time_step st =
     (if rel_time_step < time_dim then
        (case next_frame L (\<lambda>i. probs (rel_time_step * class_dim + i)) class_dim st of
           Inl e \<Rightarrow> Inl e
         | Inr st1 \<Rightarrow>
             next_loop L probs time_dim class_dim (rel_time_step + 1)
               (st1\<lparr>abs_time_step := int32 (abs_time_step st1 + 1)\<rparr>))
      else Inr st)"
  by pat_completeness auto
termination
  by (relation "measure (\<lambda>(L, probs, time_dim, class_dim, rel_time_step, st).
                          time_dim - rel_time_step)") auto

declare next_loop.simps [simp del]

definition DecoderState_next ::
  "lib \<Rightarrow> (nat \<Rightarrow> real) \<Rightarrow> nat \<Rightarrow> nat \<Rightarrow> DecoderState \<Rightarrow> error + DecoderState" where
  "DecoderState_next L probs time_dim class_dim st = next_loop L probs time_dim class_dim 0 st"

text \<open>
  \<^verbatim>\<open>DecoderState::decode\<close>. The map \<^verbatim>\<open>scores\<close> is keyed by pointers; reading it with
  \<^verbatim>\<open>scores[prefix]\<close> gives 0 for a key it does not hold.
\<close>

definition at_score :: "(ptr \<Rightarrow> real option) \<Rightarrow> ptr \<Rightarrow> real" where
  "at_score scores prefix = (case scores prefix of None \<Rightarrow> 0 | Some v \<Rightarrow> v)"

text \<open>Lines 164 to 166.\<close>

fun init_scores :: "trie \<Rightarrow> ptr list \<Rightarrow> (ptr \<Rightarrow> real option) \<Rightarrow> error + (ptr \<Rightarrow> real option)" where
  "init_scores rt [] scores = Inr scores"
| "init_scores rt (prefix # ps) scores =
     (case lookup rt prefix of
        None \<Rightarrow> Inl DanglingPointer
      | Some this \<Rightarrow> init_scores rt ps (scores(prefix \<mapsto> score (node this))))"

text \<open>Lines 170 to 182, on the prefixes still to visit.\<close>

fun rescore_loop ::
  "Scorer \<Rightarrow> trie \<Rightarrow> ptr list \<Rightarrow> (ptr \<Rightarrow> real option) \<Rightarrow> error + (ptr \<Rightarrow> real option)" where
  "rescore_loop sc rt [] scores = Inr scores"
| "rescore_loop sc rt (prefix # ps) scores =
     (case lookup rt prefix of
        None \<Rightarrow> Inl DanglingPointer
      | Some this \<Rightarrow>
          if is_empty this then rescore_loop sc rt ps (scores(prefix \<mapsto> OOV_SCORE))
          else if \<not> is_scoring_boundary sc rt (parent prefix) (character (node this)) then
            (let ngram = make_ngram sc rt prefix;
                 bos = (length ngram < get_max_order sc);
                 score0 = get_log_cond_prob sc ngram bos False * alpha sc;
                 score1 = score0 + beta sc
             in rescore_loop sc rt ps (scores(prefix \<mapsto> at_score scores prefix + score1)))
          else rescore_loop sc rt ps scores)"

text \<open>Lines 202 to 213: the output for one prefix.\<close>

definition make_output ::
  "Scorer option \<Rightarrow> trie \<Rightarrow> (ptr \<Rightarrow> real option) \<Rightarrow> ptr \<Rightarrow> error + Output" where
  "make_output scorer rt scores prefix =
     (case get_path_vec rt prefix ([], []) of
        Inl e \<Rightarrow> Inl e
      | Inr ot \<Rightarrow>
          (let approx_ctc = at_score scores prefix;
               approx_ctc1 =
                 (case scorer of
                    None \<Rightarrow> approx_ctc
                  | Some sc \<Rightarrow>
                      (let words = split_labels_into_scored_units sc (fst ot)
                       in approx_ctc - real (length words) * beta sc
                            - get_sent_log_prob sc words * alpha sc))
           in Inr \<lparr> tokens = fst ot, timesteps = snd ot, confidence = - approx_ctc1 \<rparr>))"

fun output_loop ::
  "Scorer option \<Rightarrow> trie \<Rightarrow> (ptr \<Rightarrow> real option) \<Rightarrow> ptr list \<Rightarrow> Output list \<Rightarrow> error + Output list" where
  "output_loop scorer rt scores [] outputs = Inr outputs"
| "output_loop scorer rt scores (prefix # ps) outputs =
     (case make_output scorer rt scores prefix of
        Inl e \<Rightarrow> Inl e
      | Inr output \<Rightarrow> output_loop scorer rt scores ps (outputs @ [output]))"

text \<open>Lines 162 to 183: the rescoring scores of the prefixes of the beam.\<close>

definition rescoring_scores :: "DecoderState \<Rightarrow> error + (ptr \<Rightarrow> real option)" where
  "rescoring_scores st =
     (let prefixes_copy = prefixes st
      in case init_scores (prefix_root st) prefixes_copy Map.empty of
           Inl e \<Rightarrow> Inl e
         | Inr scores \<Rightarrow>
             (case ext_scorer st of
                None \<Rightarrow> Inr scores
              | Some sc \<Rightarrow>
                  rescore_loop sc (prefix_root st) (take (beam_size st) prefixes_copy) scores))"

text \<open>
  The method is \<^verbatim>\<open>const\<close>; as for the other methods, the state after the call is returned
  beside the result. \<^verbatim>\<open>top_paths\<close> is the constant 1 of the source.
\<close>

definition top_paths :: nat where
  "top_paths = 1"

definition DecoderState_decode :: "lib \<Rightarrow> DecoderState \<Rightarrow> (error + Output list) \<times> DecoderState" where
  "DecoderState_decode L st =
     (let prefixes_copy = prefixes st
      in case rescoring_scores st of
           Inl e \<Rightarrow> (Inl e, st)
         | Inr scores \<Rightarrow>
             (let num_prefixes = min (length prefixes_copy) (beam_size st);
                  prefixes_copy1 =
                    partial_sort L (prefix_compare_external L (prefix_root st) scores)
                      num_prefixes prefixes_copy;
                  num_returned = min num_prefixes top_paths
              in if length prefixes_copy1 < num_returned then (Inl OutOfBounds, st)
                 else (output_loop (ext_scorer st) (prefix_root st) scores
                         (take num_returned prefixes_copy1) [], st)))"

section \<open>Observations on the trie\<close>

text \<open>
  What a pointer shows of a trie: the fields of the node it leads to, and the labels of
  that node's children. Both are \<open>None\<close> for a pointer that leads to no node.
\<close>

definition node_at :: "trie \<Rightarrow> ptr \<Rightarrow> PathTrie option" where
  "node_at rt p = map_option node (lookup rt p)"


definition score_at :: "trie \<Rightarrow> ptr \<Rightarrow> real" where
  "score_at rt p = (case lookup rt p of None \<Rightarrow> 0 | Some this \<Rightarrow> score (node this))"


fun map_trie :: "(PathTrie \<Rightarrow> PathTrie) \<Rightarrow> trie \<Rightarrow> trie"
  and map_children :: "(PathTrie \<Rightarrow> PathTrie) \<Rightarrow> (int \<times> trie) list \<Rightarrow> (int \<times> trie) list" where
  "map_trie f (Trie n cs) = Trie (f n) (map_children f cs)"
| "map_children f [] = []"
| "map_children f (kc # cs) = (fst kc, map_trie f (snd kc)) # map_children f cs"






text \<open>
  The timesteps of a trie are in order: the timestep of every node is at least \<open>lo\<close> and
  the timestep of its parent, and at most \<open>hi\<close>.
\<close>

fun ts_ok :: "int \<Rightarrow> int \<Rightarrow> trie \<Rightarrow> bool"
  and ts_ok_children :: "int \<Rightarrow> int \<Rightarrow> (int \<times> trie) list \<Rightarrow> bool" where
  "ts_ok lo hi (Trie n cs) = (lo \<le> timestep n \<and> timestep n \<le> hi \<and> ts_ok_children (timestep n) hi cs)"
| "ts_ok_children lo hi [] = True"
| "ts_ok_children lo hi (kc # cs) = (ts_ok lo hi (snd kc) \<and> ts_ok_children lo hi cs)"


text \<open>
  The states a decoder reaches: \<^verbatim>\<open>init\<close> on a fresh object, then any number of calls of
  \<^verbatim>\<open>next\<close> that return.
\<close>

inductive reachable :: "lib \<Rightarrow> DecoderState \<Rightarrow> bool" for L :: lib where
  reachable_init:
    "reachable L (DecoderState_init L alphabet_space_label alphabet_size beam_size0 cutoff_prob0
                    cutoff_top_n0 ext_scorer0)"
| reachable_next:
    "reachable L st \<Longrightarrow> DecoderState_next L probs time_dim class_dim st = Inr st' \<Longrightarrow>
     reachable L st'"

code_pred reachable .

text \<open>
  The same states with the frames counted: \<open>reached L n st\<close> when the calls of \<^verbatim>\<open>next\<close>
  that led to \<open>st\<close> were given \<open>n\<close> frames in all.
\<close>

inductive reached :: "lib \<Rightarrow> nat \<Rightarrow> DecoderState \<Rightarrow> bool" for L :: lib where
  reached_init:
    "reached L 0 (DecoderState_init L alphabet_space_label alphabet_size beam_size0 cutoff_prob0
                    cutoff_top_n0 ext_scorer0)"
| reached_next:
    "reached L n st \<Longrightarrow> DecoderState_next L probs time_dim class_dim st = Inr st' \<Longrightarrow>
     reached L (n + time_dim) st'"

code_pred reached .

section \<open>A concrete instance\<close>

text \<open>
  An instance of the parameters, to run the functions above on concrete inputs: the
  frames hold log probabilities (\<open>std_log\<close> is the identity and no label is pruned),
  \<open>log_sum_exp\<close> keeps the larger argument, and the two sorting algorithms sort the whole
  vector by insertion. The lexicon accepts the single word made of the label 0 and
  closed by the label 1 (the space).
\<close>

fun insert_by :: "('a \<Rightarrow> 'a \<Rightarrow> bool) \<Rightarrow> 'a \<Rightarrow> 'a list \<Rightarrow> 'a list" where
  "insert_by cmp x [] = [x]"
| "insert_by cmp x (y # ys) = (if cmp x y then x # y # ys else y # insert_by cmp x ys)"

definition sort_by :: "('a \<Rightarrow> 'a \<Rightarrow> bool) \<Rightarrow> 'a list \<Rightarrow> 'a list" where
  "sort_by cmp xs = foldr (insert_by cmp) xs []"

definition lib0 :: lib where
  "lib0 =
     \<lparr> NUM_FLT_INF = 1000000,
       log_sum_exp = (\<lambda>x y. if x \<le> - 1000000 then y else if y \<le> - 1000000 then x else max x y),
       std_log = (\<lambda>x. x),
       get_pruned_log_probs = (\<lambda>prob class_dim cp ctn. map (\<lambda>i. (i, prob i)) [0..<class_dim]),
       prefix_compare = (\<lambda>rt x y. score_at rt x > score_at rt y),
       prefix_compare_external = (\<lambda>rt scores x y. at_score scores x > at_score scores y),
       partial_sort = (\<lambda>cmp n xs. sort_by cmp xs),
       nth_element = (\<lambda>cmp n xs. sort_by cmp xs) \<rparr>"

definition dict0 :: FstType where
  "dict0 =
     \<lparr> Start = 0,
       Final = (\<lambda>s. if s = 2 then Weight 0 else FSTZERO),
       Find = (\<lambda>s l. if s = 0 \<and> l = 1 then Some 1 else if s = 1 \<and> l = 2 then Some 2 else None) \<rparr>"

definition scorer0 :: Scorer where
  "scorer0 =
     \<lparr> alpha = 2, beta = 1, max_order = 2, is_utf8_mode = False, dictionary = dict0,
       is_scoring_boundary = (\<lambda>rt p c. c = 1),
       make_ngram = (\<lambda>rt p. [''a'']),
       get_log_cond_prob = (\<lambda>ws bos eos. if bos then - 1 else - 2),
       get_sent_log_prob = (\<lambda>ws. - 3),
       split_labels_into_scored_units = (\<lambda>ls. [''a'']) \<rparr>"

text \<open>
  Two decoders over the labels 0 and 1 (the space), blank 2, with a beam of 2: \<open>st0\<close>
  without a Scorer, \<open>st0s\<close> with one.
\<close>

definition st0 :: DecoderState where
  "st0 = DecoderState_init lib0 1 2 2 1 3 None"

definition st0s :: DecoderState where
  "st0s = DecoderState_init lib0 1 2 2 1 3 (Some scorer0)"

text \<open>
  The two decoders after a first frame that gave the label 0 the log probability \<open>- 1\<close>
  and the blank \<open>- 20\<close>: the beam holds the prefix of the label 0 and the empty prefix.
\<close>

definition leaf1 :: PathTrie where
  "leaf1 = (PathTrie_new 1000000)\<lparr>log_prob_nb_prev := - 1, score := - 1,
              log_prob_c := - 1, character := 0\<rparr>"

definition st1 :: DecoderState where
  "st1 = st0\<lparr>abs_time_step := 1, prefixes := [[0], []],
            prefix_root :=
              Trie ((PathTrie_new 1000000)\<lparr>log_prob_b_prev := - 20, score := - 20\<rparr>)
                [(0, Trie leaf1 [])]\<rparr>"

definition st1s :: DecoderState where
  "st1s = st0s\<lparr>abs_time_step := 1, prefixes := [[0], []],
            prefix_root :=
              Trie ((PathTrie_new 1000000)\<lparr>log_prob_b_prev := - 20, score := - 20,
                      has_dictionary := True\<rparr>)
                [(0, Trie (leaf1\<lparr>has_dictionary := True, dictionary_state := 1\<rparr>) [])]\<rparr>"

text \<open>The row of that first frame.\<close>

definition prob0 :: "nat \<Rightarrow> real" where
  "prob0 i = [- 1, - 100, - 20] ! i"

text \<open>
  Three frames: the label 0, then the blank, then the label 0 again.
\<close>

definition probs3 :: "nat \<Rightarrow> real" where
  "probs3 i = [- 1, - 100, - 20, - 20, - 100, - 1, - 1, - 100, - 20] ! i"

text \<open>
  The same library with a pruning of the labels: the labels whose log probability is
  \<open>- 1000000\<close> or less are dropped, the others kept in their order.
\<close>

definition lib1 :: lib where
  "lib1 = lib0\<lparr>get_pruned_log_probs :=
            (\<lambda>prob class_dim cp ctn.
               filter (\<lambda>cl. - 1000000 < snd cl) (map (\<lambda>i. (i, prob i)) [0..<class_dim]))\<rparr>"

text \<open>
  Frames over three classes: in \<open>blank_rows\<close> every frame gives the blank alone, in
  \<open>rows01\<close> the first frame gives the label 0 alone and the second the label 1 alone.
\<close>

definition blank_rows :: "nat \<Rightarrow> real" where
  "blank_rows i = (if i mod 3 = 2 then 0 else - 1000000)"

definition rows01 :: "nat \<Rightarrow> real" where
  "rows01 i = [0, - 1000000, - 1000000, - 1000000, 0, - 1000000] ! i"

text \<open>
  The decoder \<open>st0\<close> after \<open>2147483647\<close> frames of \<open>blank_rows\<close> and then the two frames of
  \<open>rows01\<close>, under \<open>lib1\<close>.
\<close>

definition stw :: DecoderState where
  "stw = st0\<lparr>abs_time_step := - 2147483647, prefixes := [[0, 1], [1]],
            prefix_root :=
              Trie ((PathTrie_new 1000000)\<lparr>exists := False\<rparr>)
                [(0, Trie ((PathTrie_new 1000000)\<lparr>log_prob_c := 0, character := 0,
                             timestep := 2147483647, exists := False\<rparr>)
                       [(1, Trie ((PathTrie_new 1000000)\<lparr>log_prob_nb_prev := 0, log_prob_c := 0,
                                    score := 0, character := 1,
                                    timestep := - 2147483648\<rparr>) [])]),
                 (1, Trie ((PathTrie_new 1000000)\<lparr>log_prob_c := 0, character := 1,
                             timestep := - 2147483648\<rparr>) [])]\<rparr>"

section \<open>Pointers into the trie\<close>

lemma map_of_replace_child:
  "map_of (replace_child k v cs) k' =
     (if k' = k \<and> map_of cs k \<noteq> None then Some v else map_of cs k')"
  by (induction cs) auto


lemma replace_child_same: "map_of cs k = Some x \<Longrightarrow> replace_child k x cs = cs"
  by (induction cs) (auto split: if_splits)

lemma lookup_append:
  "lookup t (p @ q) = (case lookup t p of None \<Rightarrow> None | Some x \<Rightarrow> lookup x q)"
  by (induction p arbitrary: t) (auto split: option.splits)

lemma lookup_store_same:
  "lookup t p \<noteq> None \<Longrightarrow> lookup (store t p v) (p @ r) = lookup v r"
  by (induction p arbitrary: t) (auto simp: map_of_replace_child split: option.splits)

lemma store_dangling: "lookup t p = None \<Longrightarrow> store t p v = t"
  by (induction p arbitrary: t) (auto simp: replace_child_same split: option.splits)

lemma node_store [simp]: "p \<noteq> [] \<Longrightarrow> node (store t p v) = node t"
  by (cases p) (auto split: option.splits)

section \<open>The lexicon gate of \<^verbatim>\<open>get_path_trie\<close>\<close>

text \<open>
  C6. \<^verbatim>\<open>get_path_trie\<close> on a node with a dictionary and no child for \<open>new_char\<close>: the
  matcher is asked, from the dictionary state of the node, for the symbol
  \<open>new_char + 1\<close>. When it finds no arc the call returns null, no child is added, and the
  dictionary state of the node becomes the start state if it was final and \<open>reset\<close>
  holds (nothing else changes). When it finds an arc the call returns a new child, added
  last, without children, whose dictionary state is the next state of the arc, or the
  start state when that next state is final and \<open>reset\<close> holds. So the children of the
  node change only when the FST accepts \<open>new_char + 1\<close> from the state of the node.
\<close>

theorem get_path_trie_dictionary:
  assumes hd: "has_dictionary (node this)" and nc: "map_of (children this) new_char = None"
  shows "\<exists>this' found.
           get_path_trie flt_inf (Some dict) this new_char new_timestep lp reset = Inr (this', found) \<and>
           (case Find dict (dictionary_state (node this)) (new_char + 1) of
              None \<Rightarrow>
                \<not> found \<and> children this' = children this \<and>
                node this' = (node this)\<lparr>dictionary_state :=
                   (if Final dict (dictionary_state (node this)) \<noteq> FSTZERO \<and> reset
                    then Start dict else dictionary_state (node this))\<rparr>
            | Some nextstate \<Rightarrow>
                found \<and> node this' = node this \<and>
                (\<exists>child. children this' = children this @ [(new_char, child)] \<and>
                   children child = [] \<and>
                   character (node child) = new_char \<and>
                   has_dictionary (node child) \<and>
                   dictionary_state (node child) =
                     (if Final dict nextstate \<noteq> FSTZERO \<and> reset then Start dict else nextstate))) \<and>
           (children this' \<noteq> children this \<longrightarrow>
              Find dict (dictionary_state (node this)) (new_char + 1) \<noteq> None)"
  using hd nc
  by (cases "Find dict (dictionary_state (node this)) (new_char + 1)")
     (auto simp add: get_path_trie_def set_node_def Let_def PathTrie_new_def)

theorem get_path_trie_dictionary_witness:
  "has_dictionary (node (prefix_root st0s)) \<and>
   map_of (children (prefix_root st0s)) 0 = None \<and>
   (\<exists>this'. get_path_trie 1000000 (Some dict0) (prefix_root st0s) 0 0 (- 1) True = Inr (this', True) \<and>
      map (\<lambda>kc. (fst kc, dictionary_state (node (snd kc)))) (children this') = [(0, 1)]) \<and>
   (\<exists>this'. get_path_trie 1000000 (Some dict0) (prefix_root st0s) 1 0 (- 1) True = Inr (this', False) \<and>
      children this' = [])"
  using get_path_trie_dictionary [of "prefix_root st0s" 0 1000000 dict0 0 "- 1" True]
  by (simp add: st0s_def DecoderState_init_def scorer0_def dict0_def lib0_def
        get_path_trie_def set_node_def PathTrie_new_def)

section \<open>The pass of the loop for one prefix and one label\<close>

lemma node_at_store_other:
  "lookup t p \<noteq> None \<Longrightarrow> take (length p) q \<noteq> p \<Longrightarrow>
   node_at (store t p v) q = node_at t q"
proof (induction p arbitrary: t q)
  case Nil
  then show ?case by simp
next
  case (Cons c p)
  then obtain ch where ch: "map_of (children t) c = Some ch" and l: "lookup ch p \<noteq> None"
    by (auto split: option.splits)
  show ?case
  proof (cases q)
    case Nil
    then show ?thesis using ch by (simp add: node_at_def)
  next
    case q: (Cons d q')
    show ?thesis
    proof (cases "d = c")
      case True
      with Cons.prems q have "take (length p) q' \<noteq> p" by simp
      from Cons.IH[OF l this] show ?thesis using ch q True
        by (simp add: node_at_def map_of_replace_child)
    next
      case False
      then show ?thesis using ch q by (simp add: node_at_def map_of_replace_child)
    qed
  qed
qed


lemma node_at_store:
  assumes "lookup t p \<noteq> None"
  shows "node_at (store t p v) q =
           (if take (length p) q = p then node_at v (drop (length p) q) else node_at t q)"
proof (cases "take (length p) q = p")
  case True
  then have "q = p @ drop (length p) q" by (metis append_take_drop_id)
  then have "lookup (store t p v) q = lookup v (drop (length p) q)"
    using lookup_store_same[OF assms, of v "drop (length p) q"] by simp
  with True show ?thesis by (simp add: node_at_def)
next
  case False
  with node_at_store_other[OF assms False] show ?thesis by simp
qed


lemma lookup_set_node: "r \<noteq> [] \<Longrightarrow> lookup (set_node f this) r = lookup this r"
  by (cases r) (simp_all add: set_node_def)

lemma node_at_set_node:
  "node_at (set_node f this) r = (if r = [] then Some (f (node this)) else node_at this r)"
  by (cases r) (simp_all add: node_at_def set_node_def)


lemma take_drop_eq: "take (length p) q = p \<Longrightarrow> p @ drop (length p) q = q"
  by (metis append_take_drop_id)

text \<open>Writing the fields of the node p leads to.\<close>

lemma node_at_store_set_node:
  assumes "lookup t p = Some this"
  shows "node_at (store t p (set_node f this)) q =
           (if q = p then Some (f (node this)) else node_at t q)"
proof -
  have ne: "lookup t p \<noteq> None" using assms by simp
  show ?thesis
  proof (cases "take (length p) q = p")
    case True
    then have q: "q = p @ drop (length p) q" by (simp add: take_drop_eq)
    have "node_at t q = node_at this (drop (length p) q)"
      using assms by (subst q) (simp add: node_at_def lookup_append)
    moreover have "(drop (length p) q = []) = (q = p)" using q by (metis append_Nil2 self_append_conv)
    ultimately show ?thesis using True by (simp add: node_at_store[OF ne] node_at_set_node)
  next
    case False
    then have "q \<noteq> p" by auto
    with False show ?thesis by (simp add: node_at_store[OF ne])
  qed
qed



text \<open>
  \<^verbatim>\<open>get_path_trie\<close> leaves the fields of the node it is called on as they are, but for the
  dictionary state, and a non-null result is the child for the label.
\<close>

lemma get_path_trie_node:
  assumes "get_path_trie flt_inf D this new_char new_timestep lp reset = Inr (this2, found)"
  shows "\<exists>d. node this2 = (node this)\<lparr>dictionary_state := d\<rparr>"
proof -
  have same: "node this = (node this)\<lparr>dictionary_state := dictionary_state (node this)\<rparr>"
    by simp
  from assms consider "node this2 = node this"
    | "node this2 = (node this)\<lparr>dictionary_state := Start (the D)\<rparr>"
    by (auto simp: get_path_trie_def Let_def set_node_def split: option.splits if_splits)
  then show ?thesis
  proof cases
    case 1
    with same show ?thesis by metis
  next
    case 2
    then show ?thesis by blast
  qed
qed

lemma get_path_trie_found:
  assumes "get_path_trie flt_inf D this new_char new_timestep lp reset = Inr (this2, True)"
  shows "\<exists>child. map_of (children this2) new_char = Some child"
  using assms
  by (auto simp: get_path_trie_def Let_def map_of_replace_child map_add_def
        split: option.splits if_splits)





text \<open>
  C3. The extension. When \<^verbatim>\<open>get_path_trie\<close> returns a child for the label, the
  extension succeeds and the child gets
  \<open>log_prob_nb_cur := log_sum_exp log_prob_nb_cur log_p\<close> (on the fields
  \<^verbatim>\<open>get_path_trie\<close> left it with), every other node staying as \<^verbatim>\<open>get_path_trie\<close> left it.
  Here \<open>log_p\<close> starts as \<open>log_prob_c + log_prob_b_prev\<close> of the prefix when the label is
  the character of the prefix and \<open>log_prob_b_prev\<close> is above \<open>- NUM_FLT_INF\<close>, as
  \<open>log_prob_c + score\<close> of the prefix when the label is not its character, and as
  \<open>- NUM_FLT_INF\<close> otherwise. With a Scorer, when \<open>is_scoring_boundary\<close> holds of the
  target (the child in UTF-8 mode, else the prefix) and the label,
  \<open>get_log_cond_prob ngram bos * alpha\<close> and then \<open>beta\<close> are added, where \<open>ngram\<close> is
  \<open>make_ngram\<close> of the target and \<open>bos\<close> holds iff the ngram is shorter than \<open>max_order\<close>.
\<close>

theorem extend_prefix_accumulates:
  assumes l: "lookup (prefix_root st) prefix = Some this"
    and g: "get_path_trie (NUM_FLT_INF L) (map_option dictionary (ext_scorer st)) this
              (int c) (abs_time_step st) lp True = Inr (this2, True)"
  shows
    "let rt2 = store (prefix_root st) prefix this2;
         prefix_new = prefix @ [int c];
         acoustic =
           (if int c = character (node this) \<and> log_prob_b_prev (node this) > - NUM_FLT_INF L
            then lp + log_prob_b_prev (node this)
            else if int c \<noteq> character (node this) then lp + score (node this)
            else - NUM_FLT_INF L);
         log_p =
           (case ext_scorer st of
              None \<Rightarrow> acoustic
            | Some sc \<Rightarrow>
                (let target = (if is_utf8_mode sc then prefix_new else prefix);
                     ngram = make_ngram sc rt2 target
                 in if is_scoring_boundary sc rt2 (Some target) (int c)
                    then acoustic
                           + get_log_cond_prob sc ngram (length ngram < max_order sc) False * alpha sc
                           + beta sc
                    else acoustic))
     in \<exists>child st'.
          map_of (children this2) (int c) = Some child \<and>
          extend_prefix L c lp prefix st = Inr st' \<and>
          st'\<lparr>prefix_root := prefix_root st\<rparr> = st \<and>
          node_at (prefix_root st') prefix_new =
            Some ((node child)\<lparr>log_prob_nb_cur :=
                    log_sum_exp L (log_prob_nb_cur (node child)) log_p\<rparr>) \<and>
          (\<forall>q. q \<noteq> prefix_new \<longrightarrow> node_at (prefix_root st') q = node_at rt2 q)"
proof -
  let ?rt2 = "store (prefix_root st) prefix this2"
  from get_path_trie_found[OF g] obtain child where ch: "map_of (children this2) (int c) = Some child"
    by blast
  have ne: "lookup (prefix_root st) prefix \<noteq> None" using l by simp
  have lc: "lookup ?rt2 (prefix @ [int c]) = Some child"
    using lookup_store_same[OF ne, of this2 "[int c]"] ch by simp
  from get_path_trie_node[OF g] obtain d where d: "node this2 = (node this)\<lparr>dictionary_state := d\<rparr>"
    by blast
  show ?thesis
    using l g ch lc d
    by (simp add: extend_prefix_def Let_def new_prefix_log_p_def get_max_order_def
          node_at_store_set_node split: option.splits)
qed


theorem extend_prefix_accumulates_witness:
  "\<exists>this this2 st'.
     lookup (prefix_root st1s) [0] = Some this \<and>
     get_path_trie (NUM_FLT_INF lib0) (map_option dictionary (ext_scorer st1s)) this
       (int 1) (abs_time_step st1s) (- 3) True = Inr (this2, True) \<and>
     extend_prefix lib0 1 (- 3) [0] st1s = Inr st' \<and>
     map_option log_prob_nb_cur (node_at (prefix_root st') [0, 1]) = Some (- 5)"
proof -
  let ?leaf = "Trie (leaf1\<lparr>has_dictionary := True, dictionary_state := 1\<rparr>) []"
  have a: "lookup (prefix_root st1s) [0] = Some ?leaf" by (simp add: st1s_def)
  have "\<exists>this2. get_path_trie (NUM_FLT_INF lib0) (map_option dictionary (ext_scorer st1s)) ?leaf
       (int 1) (abs_time_step st1s) (- 3) True = Inr (this2, True)"
    by (simp add: get_path_trie_def st1s_def st0s_def DecoderState_init_def scorer0_def dict0_def
          leaf1_def lib0_def PathTrie_new_def)
  then obtain this2 where b: "get_path_trie (NUM_FLT_INF lib0)
       (map_option dictionary (ext_scorer st1s)) ?leaf
       (int 1) (abs_time_step st1s) (- 3) True = Inr (this2, True)" by blast
  from b have ch: "map_of (children this2) 1 = Some (Trie ((PathTrie_new 1000000)
      \<lparr>character := 1, timestep := 1, has_dictionary := True, log_prob_c := - 3,
        dictionary_state := 0\<rparr>) [])"
    by (auto simp add: get_path_trie_def st1s_def st0s_def DecoderState_init_def scorer0_def dict0_def
          leaf1_def lib0_def PathTrie_new_def)
  from extend_prefix_accumulates [OF a b] ch obtain st' where
    "extend_prefix lib0 1 (- 3) [0] st1s = Inr st'"
    "map_option log_prob_nb_cur (node_at (prefix_root st') [0, 1]) = Some (- 5)"
    by (auto simp add: Let_def st1s_def st0s_def DecoderState_init_def scorer0_def
          leaf1_def lib0_def PathTrie_new_def)
  with a b show ?thesis by blast
qed

section \<open>The frame commit\<close>

lemma iterate_to_vec_map:
  "fst (iterate_to_vec L p t out) = map_trie (\<lambda>f. if exists f then commit L f else f) t"
  "fst (iterate_children L p cs out) = map_children (\<lambda>f. if exists f then commit L f else f) cs"
  by (induction L p t out and L p cs out rule: iterate_to_vec_iterate_children.induct)
     (simp_all add: Let_def)





















lemma store_single: "map_of (children t) c = Some ch \<Longrightarrow>
    store t [c] v = Trie (node t) (replace_child c v (children t))"
  by simp





lemma extend_prefix_frame:
  assumes "extend_prefix L c lp prefix st = Inr st'"
  shows "\<exists>rt'. st' = st\<lparr>prefix_root := rt'\<rparr>"
proof -
  from assms obtain this this2 found where l: "lookup (prefix_root st) prefix = Some this" and
    g: "get_path_trie (NUM_FLT_INF L) (map_option dictionary (ext_scorer st)) this
          (int c) (abs_time_step st) lp True = Inr (this2, found)"
    by (auto simp: extend_prefix_def split: option.splits sum.splits)
  show ?thesis
  proof (cases found)
    case True
    with assms l g show ?thesis
      by (auto simp: extend_prefix_def Let_def split: option.splits)
  next
    case False
    with assms l g show ?thesis
      by (auto simp: extend_prefix_def Let_def)
  qed
qed

lemma prefix_step_frame:
  assumes "prefix_step L c lp prefix st = Inr st'"
  shows "\<exists>rt'. st' = st\<lparr>prefix_root := rt'\<rparr>"
proof -
  from assms obtain this where l: "lookup (prefix_root st) prefix = Some this"
    by (auto simp: prefix_step_def split: option.splits)
  show ?thesis
  proof (cases "c = blank_id st")
    case True
    with assms l show ?thesis by (auto simp: prefix_step_def)
  next
    case False
    show ?thesis
    proof (cases "int c = character (node this)")
      case True
      with assms l False obtain rt1 where "extend_prefix L c lp prefix (st\<lparr>prefix_root := rt1\<rparr>) = Inr st'"
        by (auto simp: prefix_step_def Let_def)
      from extend_prefix_frame[OF this] show ?thesis by auto
    next
      case ne: False
      with assms l False have "extend_prefix L c lp prefix st = Inr st'"
        by (auto simp: prefix_step_def Let_def)
      from extend_prefix_frame[OF this] show ?thesis .
    qed
  qed
qed

lemma prefix_loop_frame:
  "prefix_loop L fb mc c lp ps st = Inr st' \<Longrightarrow> \<exists>rt'. st' = st\<lparr>prefix_root := rt'\<rparr>"
proof (induction ps arbitrary: st)
  case Nil
  then have "st' = st\<lparr>prefix_root := prefix_root st\<rparr>" by simp
  then show ?case by blast
next
  case (Cons p ps)
  from Cons.prems consider "st' = st"
    | st1 where "prefix_step L c lp p st = Inr st1" "prefix_loop L fb mc c lp ps st1 = Inr st'"
    by (auto split: option.splits if_splits sum.splits)
  then show ?case
  proof cases
    case 1
    then have "st' = st\<lparr>prefix_root := prefix_root st\<rparr>" by simp
    then show ?thesis by blast
  next
    case 2
    from prefix_step_frame[OF 2(1)] obtain rt1 where "st1 = st\<lparr>prefix_root := rt1\<rparr>" by blast
    moreover from Cons.IH[OF 2(2)] obtain rt2 where "st' = st1\<lparr>prefix_root := rt2\<rparr>" by blast
    ultimately have "st' = st\<lparr>prefix_root := rt2\<rparr>" by simp
    then show ?thesis by blast
  qed
qed


section \<open>The cutoff of a full beam\<close>





lemmas fix_defs = st0_def st0s_def st1_def st1s_def leaf1_def lib0_def scorer0_def dict0_def prob0_def
  DecoderState_init_def PathTrie_new_def ROOT_def

lemmas run_defs = next_frame_def full_beam_cutoff_def prefix_step_def extend_prefix_def
  get_path_trie_def set_node_def new_prefix_log_p_def prune_def commit_def score_at_def
  sort_by_def Let_def get_max_order_def

lemma upt_0_3: "[0..<3] = [0, 1, 2::nat]"
  by code_simp




section \<open>The loop over the prefixes for the blank\<close>





section \<open>The beam after a frame\<close>



lemma label_loop_frame:
  "label_loop L fb mc idx st = Inr st' \<Longrightarrow> \<exists>rt'. st' = st\<lparr>prefix_root := rt'\<rparr>"
proof (induction idx arbitrary: st)
  case Nil
  then have "st' = st\<lparr>prefix_root := prefix_root st\<rparr>" by simp
  then show ?case by blast
next
  case (Cons cl idx)
  from Cons.prems obtain st1 where
    a: "prefix_loop L fb mc (fst cl) (snd cl) (take (beam_size st) (prefixes st)) st = Inr st1"
    and b: "label_loop L fb mc idx st1 = Inr st'"
    by (auto split: sum.splits)
  from prefix_loop_frame[OF a] obtain rt1 where "st1 = st\<lparr>prefix_root := rt1\<rparr>" by blast
  moreover from Cons.IH[OF b] obtain rt2 where "st' = st1\<lparr>prefix_root := rt2\<rparr>" by blast
  ultimately have "st' = st\<lparr>prefix_root := rt2\<rparr>" by simp
  then show ?case by blast
qed



section \<open>Well-formed tries\<close>


































section \<open>Timesteps\<close>

lemma ts_ok_mono:
  "ts_ok lo hi t \<Longrightarrow> lo' \<le> lo \<Longrightarrow> hi \<le> hi' \<Longrightarrow> ts_ok lo' hi' t"
  "ts_ok_children lo hi cs \<Longrightarrow> lo' \<le> lo \<Longrightarrow> hi \<le> hi' \<Longrightarrow> ts_ok_children lo' hi' cs"
proof (induction lo hi t and lo hi cs arbitrary: lo' and lo' rule: ts_ok_ts_ok_children.induct)
  case (1 lo hi n cs)
  from "1.prems" have "ts_ok_children (timestep n) hi cs" by simp
  from "1.IH"[OF this order_refl "1.prems"(3)] "1.prems" show ?case by simp
next
  case (2 lo hi)
  then show ?case by simp
next
  case (3 lo hi kc cs)
  then show ?case by simp
qed

lemma ts_ok_unfold:
  "ts_ok lo hi t =
     (lo \<le> timestep (node t) \<and> timestep (node t) \<le> hi \<and>
      ts_ok_children (timestep (node t)) hi (children t))"
  by (cases t) simp

lemma ts_ok_children_map_of:
  "ts_ok_children lo hi cs \<Longrightarrow> map_of cs k = Some ch \<Longrightarrow> ts_ok lo hi ch"
  by (induction cs) (auto split: if_splits)

lemma ts_ok_children_replace_child:
  "ts_ok_children lo hi cs \<Longrightarrow> ts_ok lo hi v \<Longrightarrow> ts_ok_children lo hi (replace_child k v cs)"
  by (induction cs) auto

lemma ts_ok_children_erase_child:
  "ts_ok_children lo hi cs \<Longrightarrow> ts_ok_children lo hi (erase_child k cs)"
  by (induction cs) auto

lemma ts_ok_children_append:
  "ts_ok_children lo hi (cs @ ds) = (ts_ok_children lo hi cs \<and> ts_ok_children lo hi ds)"
  by (induction cs) auto

lemma ts_ok_set_node:
  "(\<And>x. timestep (f x) = timestep x) \<Longrightarrow> ts_ok lo hi this \<Longrightarrow> ts_ok lo hi (set_node f this)"
  by (simp add: ts_ok_unfold set_node_def)

lemma ts_ok_lookup:
  "ts_ok lo hi t \<Longrightarrow> lookup t p = Some x \<Longrightarrow> \<exists>lo'. lo \<le> lo' \<and> ts_ok lo' hi x"
proof (induction p arbitrary: t lo)
  case Nil
  then show ?case by auto
next
  case (Cons c p)
  from Cons.prems obtain ch where ch: "map_of (children t) c = Some ch" and l: "lookup ch p = Some x"
    by (auto split: option.splits)
  from Cons.prems(1) ch have "ts_ok (timestep (node t)) hi ch"
    by (auto simp: ts_ok_unfold[of lo hi t] dest: ts_ok_children_map_of)
  from Cons.IH[OF this l] obtain lo' where "timestep (node t) \<le> lo'" "ts_ok lo' hi x" by blast
  moreover from Cons.prems(1) have "lo \<le> timestep (node t)" by (simp add: ts_ok_unfold[of lo hi t])
  ultimately show ?case by (meson order_trans)
qed

lemma ts_ok_store:
  assumes "ts_ok lo hi t" and "lookup t p = Some this"
    and "\<And>lo'. ts_ok lo' hi this \<Longrightarrow> ts_ok lo' hi v"
  shows "ts_ok lo hi (store t p v)"
  using assms(1,2)
proof (induction p arbitrary: t lo)
  case Nil
  with assms(3) show ?case by simp
next
  case (Cons c p)
  from Cons.prems obtain ch where ch: "map_of (children t) c = Some ch" and l: "lookup ch p = Some this"
    by (auto split: option.splits)
  from Cons.prems(1) ch have "ts_ok (timestep (node t)) hi ch"
    by (auto simp: ts_ok_unfold[of lo hi t] dest: ts_ok_children_map_of)
  from Cons.IH[OF this l] Cons.prems(1) ch show ?case
    by (simp add: ts_ok_unfold[of lo hi t] ts_ok_unfold[of lo hi "Trie _ _"]
          ts_ok_children_replace_child)
qed

lemma get_path_trie_ts_ok:
  assumes g: "get_path_trie flt_inf D this new_char hi lp reset = Inr (this2, found)"
    and t: "ts_ok lo hi this"
  shows "ts_ok lo hi this2"
proof (cases "map_of (children this) new_char")
  case (Some child)
  let ?child1 = "(if log_prob_c (node child) < lp \<and> children child = []
                  then set_node (\<lambda>f. f\<lparr>log_prob_c := lp, timestep := hi\<rparr>) child
                  else child)"
  let ?child2 = "(if \<not> exists (node ?child1)
                  then set_node (\<lambda>f. f\<lparr>exists := True,
                                          log_prob_b_prev := - flt_inf,
                                          log_prob_nb_prev := - flt_inf,
                                          log_prob_b_cur := - flt_inf,
                                          log_prob_nb_cur := - flt_inf\<rparr>) ?child1
                  else ?child1)"
  from g Some have t2: "this2 = Trie (node this) (replace_child new_char ?child2 (children this))"
    by (simp add: get_path_trie_def Let_def)
  from t have n: "lo \<le> timestep (node this)" "timestep (node this) \<le> hi"
    and cs: "ts_ok_children (timestep (node this)) hi (children this)"
    by (simp_all add: ts_ok_unfold[of lo hi this])
  from cs Some have c0: "ts_ok (timestep (node this)) hi child" by (rule ts_ok_children_map_of)
  have c1: "ts_ok (timestep (node this)) hi ?child1"
    using c0 n by (auto simp: ts_ok_unfold[of _ hi "set_node _ _"] set_node_def)
  have c2: "ts_ok (timestep (node this)) hi ?child2"
    using c1 by (simp add: ts_ok_set_node)
  show ?thesis unfolding t2 using n cs c2
    by (simp add: ts_ok_children_replace_child)
next
  case None
  from g None consider "this2 = this"
    | d where "this2 = set_node (\<lambda>f. f\<lparr>dictionary_state := d\<rparr>) this"
    | new where "this2 = Trie (node this) (children this @ [(new_char, Trie new [])])" "timestep new = hi"
    by (auto simp: get_path_trie_def Let_def split: option.splits if_splits)
  then show ?thesis
  proof cases
    case 1
    with t show ?thesis by simp
  next
    case 2
    with t show ?thesis by (simp add: ts_ok_set_node)
  next
    case 3
    with t show ?thesis by (simp add: ts_ok_unfold[of lo hi this] ts_ok_children_append)
  qed
qed


lemma extend_prefix_ts_ok:
  assumes e: "extend_prefix L c lp prefix st = Inr st'"
    and t: "ts_ok lo (abs_time_step st) (prefix_root st)"
  shows "ts_ok lo (abs_time_step st) (prefix_root st')"
proof -
  let ?hi = "abs_time_step st"
  from e obtain this this2 found where l: "lookup (prefix_root st) prefix = Some this" and
    g: "get_path_trie (NUM_FLT_INF L) (map_option dictionary (ext_scorer st)) this
          (int c) ?hi lp True = Inr (this2, found)"
    by (auto simp: extend_prefix_def split: option.splits sum.splits)
  let ?rt2 = "store (prefix_root st) prefix this2"
  have t2: "ts_ok lo ?hi ?rt2"
    using t l by (rule ts_ok_store) (rule get_path_trie_ts_ok[OF g])
  show ?thesis
  proof (cases found)
    case False
    with e l g have "prefix_root st' = ?rt2" by (auto simp: extend_prefix_def Let_def)
    with t2 show ?thesis by simp
  next
    case True
    with e l g obtain child h where c: "lookup ?rt2 (prefix @ [int c]) = Some child"
      and r: "prefix_root st' = store ?rt2 (prefix @ [int c]) (set_node h child)"
      and hs: "\<forall>x. timestep (h x) = timestep x"
      by (auto simp: extend_prefix_def Let_def split: option.splits)
    show ?thesis unfolding r using t2 c
      by (rule ts_ok_store) (simp add: ts_ok_set_node hs)
  qed
qed

lemma prefix_step_ts_ok:
  assumes e: "prefix_step L c lp prefix st = Inr st'"
    and t: "ts_ok lo (abs_time_step st) (prefix_root st)"
  shows "ts_ok lo (abs_time_step st) (prefix_root st')"
proof -
  from e obtain this where l: "lookup (prefix_root st) prefix = Some this"
    by (auto simp: prefix_step_def split: option.splits)
  have w: "ts_ok lo (abs_time_step st) (store (prefix_root st) prefix (set_node h this))"
    if "\<forall>x. timestep (h x) = timestep x" for h
    using t l by (rule ts_ok_store) (simp add: ts_ok_set_node that)
  show ?thesis
  proof (cases "c = blank_id st")
    case True
    with e l w show ?thesis by (auto simp: prefix_step_def)
  next
    case False
    let ?st1 = "(if int c = character (node this)
                    then st\<lparr>prefix_root := store (prefix_root st) prefix
                           (set_node (\<lambda>f. f\<lparr>log_prob_nb_cur :=
                              log_sum_exp L (log_prob_nb_cur f)
                                (lp + log_prob_nb_prev f)\<rparr>) this)\<rparr>
                    else st)"
    from e l False have x: "extend_prefix L c lp prefix ?st1 = Inr st'"
      by (simp add: prefix_step_def Let_def)
    have a: "abs_time_step ?st1 = abs_time_step st" by simp
    have "ts_ok lo (abs_time_step st) (prefix_root ?st1)" using w t by simp
    with extend_prefix_ts_ok[OF x, of lo] a show ?thesis by simp
  qed
qed

lemma prefix_loop_ts_ok:
  "prefix_loop L fb mc c lp ps st = Inr st' \<Longrightarrow> ts_ok lo (abs_time_step st) (prefix_root st) \<Longrightarrow>
   ts_ok lo (abs_time_step st) (prefix_root st')"
proof (induction ps arbitrary: st)
  case Nil
  then show ?case by simp
next
  case (Cons p ps)
  from Cons.prems(1) consider "st' = st"
    | st1 where "prefix_step L c lp p st = Inr st1" "prefix_loop L fb mc c lp ps st1 = Inr st'"
    by (auto split: option.splits if_splits sum.splits)
  then show ?case
  proof cases
    case 1
    with Cons.prems show ?thesis by simp
  next
    case 2
    from prefix_step_frame[OF 2(1)] have a: "abs_time_step st1 = abs_time_step st" by auto
    from prefix_step_ts_ok[OF 2(1) Cons.prems(2)] a
    have "ts_ok lo (abs_time_step st1) (prefix_root st1)" by simp
    from Cons.IH[OF 2(2) this] a show ?thesis by simp
  qed
qed

lemma label_loop_ts_ok:
  "label_loop L fb mc idx st = Inr st' \<Longrightarrow> ts_ok lo (abs_time_step st) (prefix_root st) \<Longrightarrow>
   ts_ok lo (abs_time_step st) (prefix_root st')"
proof (induction idx arbitrary: st)
  case Nil
  then show ?case by simp
next
  case (Cons cl idx)
  from Cons.prems(1) obtain st1 where
    a: "prefix_loop L fb mc (fst cl) (snd cl) (take (beam_size st) (prefixes st)) st = Inr st1"
    and b: "label_loop L fb mc idx st1 = Inr st'"
    by (auto split: sum.splits)
  from prefix_loop_frame[OF a] have t: "abs_time_step st1 = abs_time_step st" by auto
  from prefix_loop_ts_ok[OF a Cons.prems(2)] t
  have "ts_ok lo (abs_time_step st1) (prefix_root st1)" by simp
  from Cons.IH[OF b this] t show ?case by simp
qed

lemma ts_ok_map_trie:
  "(\<And>x. timestep (g x) = timestep x) \<Longrightarrow> ts_ok lo hi t \<Longrightarrow> ts_ok lo hi (map_trie g t)"
  "(\<And>x. timestep (g x) = timestep x) \<Longrightarrow> ts_ok_children lo hi cs \<Longrightarrow>
     ts_ok_children lo hi (map_children g cs)"
  by (induction g t and g cs arbitrary: lo and lo rule: map_trie_map_children.induct) simp_all

lemma ts_ok_remove:
  "ts_ok lo hi rt \<Longrightarrow> remove rt p = Inr rt' \<Longrightarrow> ts_ok lo hi rt'"
proof (induction rt p arbitrary: rt' rule: remove.induct)
  case (1 rt p)
  from "1.prems"(2) obtain this where l: "lookup rt p = Some this"
    by (subst (asm) remove.simps) (auto split: option.splits)
  let ?rt1 = "store rt p (set_node (\<lambda>f. f\<lparr>exists := False\<rparr>) this)"
  have rt1: "ts_ok lo hi ?rt1"
    using "1.prems"(1) l by (rule ts_ok_store) (simp add: ts_ok_set_node)
  show ?case
  proof (cases "children this = []")
    case False
    with "1.prems"(2) l have "rt' = ?rt1"
      by (subst (asm) remove.simps) (simp add: Let_def)
    with rt1 show ?thesis by simp
  next
    case True
    with "1.prems"(2) l have pne: "p \<noteq> []"
      by (subst (asm) remove.simps) (auto simp: Let_def split: if_splits)
    with "1.prems"(2) l True obtain parent where lp: "lookup ?rt1 (butlast p) = Some parent"
      by (subst (asm) remove.simps) (auto simp: Let_def split: option.splits)
    let ?parent1 = "Trie (node parent) (erase_child (character (node this)) (children parent))"
    let ?rt2 = "store ?rt1 (butlast p) ?parent1"
    have rt2: "ts_ok lo hi ?rt2"
      using rt1 lp
      by (rule ts_ok_store)
         (simp add: ts_ok_unfold[of _ hi parent] ts_ok_children_erase_child)
    show ?thesis
    proof (cases "children ?parent1 = [] \<and> \<not> exists (node ?parent1)")
      case False
      with "1.prems"(2) l True pne lp have "rt' = ?rt2"
        by (subst (asm) remove.simps) (auto simp: Let_def)
      with rt2 show ?thesis by simp
    next
      case rec: True
      with "1.prems"(2) l True pne lp have "remove ?rt2 (butlast p) = Inr rt'"
        by (subst (asm) remove.simps) (auto simp: Let_def)
      from "1.IH"[OF l refl True pne lp refl refl rec rt2 this] show ?thesis .
    qed
  qed
qed

lemma ts_ok_remove_loop:
  "ts_ok lo hi rt \<Longrightarrow> remove_loop ps rt = Inr rt' \<Longrightarrow> ts_ok lo hi rt'"
proof (induction ps arbitrary: rt)
  case Nil
  then show ?case by simp
next
  case (Cons p ps)
  from Cons.prems(2) obtain rt1 where r: "remove rt p = Inr rt1" and l: "remove_loop ps rt1 = Inr rt'"
    by (auto split: sum.splits)
  from Cons.IH[OF ts_ok_remove[OF Cons.prems(1) r] l] show ?case .
qed

lemma prune_frame:
  "prune L st = Inr st' \<Longrightarrow> \<exists>rt' ps'. st' = st\<lparr>prefix_root := rt', prefixes := ps'\<rparr>"
proof (cases "length (prefixes st) > beam_size st")
  case True
  assume "prune L st = Inr st'"
  with True show ?thesis by (auto simp: prune_def Let_def split: sum.splits)
next
  case False
  assume "prune L st = Inr st'"
  with False have "st' = st\<lparr>prefix_root := prefix_root st, prefixes := prefixes st\<rparr>"
    by (simp add: prune_def)
  then show ?thesis by blast
qed

lemma prune_ts_ok:
  assumes "prune L st = Inr st'" and "ts_ok lo hi (prefix_root st)"
  shows "ts_ok lo hi (prefix_root st')"
proof (cases "length (prefixes st) > beam_size st")
  case True
  with assms(1) obtain ps where "remove_loop ps (prefix_root st) = Inr (prefix_root st')"
    by (auto simp: prune_def Let_def split: sum.splits)
  from ts_ok_remove_loop[OF assms(2) this] show ?thesis .
next
  case False
  with assms show ?thesis by (simp add: prune_def)
qed

lemma next_frame_ts_ok:
  assumes f: "next_frame L prob class_dim st = Inr st'"
    and t: "ts_ok lo (abs_time_step st) (prefix_root st)"
  shows "ts_ok lo (abs_time_step st) (prefix_root st') \<and> abs_time_step st' = abs_time_step st"
proof -
  from f obtain ps mc fb st1 where
    l: "label_loop L fb mc (get_pruned_log_probs L prob class_dim (cutoff_prob st) (cutoff_top_n st))
          (st\<lparr>prefixes := ps\<rparr>) = Inr st1" and
    p: "prune L (st1\<lparr>prefix_root := fst (iterate_to_vec L [] (prefix_root st1) []),
                     prefixes := snd (iterate_to_vec L [] (prefix_root st1) [])\<rparr>) = Inr st'"
    by (auto simp: next_frame_def Let_def split: sum.splits prod.splits)
  from label_loop_frame[OF l] have a1: "abs_time_step st1 = abs_time_step st" by auto
  from label_loop_ts_ok[OF l, of lo] t have t1: "ts_ok lo (abs_time_step st) (prefix_root st1)"
    by simp
  have t2: "ts_ok lo (abs_time_step st) (fst (iterate_to_vec L [] (prefix_root st1) []))"
    unfolding iterate_to_vec_map
    by (rule ts_ok_map_trie) (simp_all add: t1 commit_def Let_def)
  from prune_ts_ok[OF p, of lo "abs_time_step st"] t2
  have "ts_ok lo (abs_time_step st) (prefix_root st')" by simp
  moreover from prune_frame[OF p] a1 have "abs_time_step st' = abs_time_step st" by auto
  ultimately show ?thesis by simp
qed

lemma int32_id: "- 2147483648 \<le> x \<Longrightarrow> x \<le> 2147483647 \<Longrightarrow> int32 x = x"
  by (simp add: int32_def)

lemma int32_succ: "int32 (int32 x + 1) = int32 (1 + x)"
  by (simp add: int32_def mod_simps)

lemma next_frame_count:
  assumes f: "next_frame L prob class_dim st = Inr st'"
  shows "abs_time_step st' = abs_time_step st"
proof -
  from f obtain ps mc fb st1 where
    l: "label_loop L fb mc (get_pruned_log_probs L prob class_dim (cutoff_prob st) (cutoff_top_n st))
          (st\<lparr>prefixes := ps\<rparr>) = Inr st1" and
    p: "prune L (st1\<lparr>prefix_root := fst (iterate_to_vec L [] (prefix_root st1) []),
                     prefixes := snd (iterate_to_vec L [] (prefix_root st1) [])\<rparr>) = Inr st'"
    by (auto simp: next_frame_def Let_def split: sum.splits prod.splits)
  from label_loop_frame[OF l] have a1: "abs_time_step st1 = abs_time_step st" by auto
  from prune_frame[OF p] a1 show ?thesis by auto
qed

text \<open>The counter is the number of the frames given so far, on 32 bits.\<close>

lemma next_loop_count:
  "next_loop L probs time_dim class_dim rel_time_step st = Inr st' \<Longrightarrow>
   abs_time_step st = int32 (int m) \<Longrightarrow>
   abs_time_step st' = int32 (int (m + (time_dim - rel_time_step)))"
proof (induction L probs time_dim class_dim rel_time_step st arbitrary: m rule: next_loop.induct)
  case (1 L probs time_dim class_dim rel_time_step st)
  show ?case
  proof (cases "rel_time_step < time_dim")
    case False
    with "1.prems" show ?thesis by (subst (asm) next_loop.simps) simp
  next
    case True
    with "1.prems"(1) obtain st1 where
      f: "next_frame L (\<lambda>i. probs (rel_time_step * class_dim + i)) class_dim st = Inr st1" and
      n: "next_loop L probs time_dim class_dim (rel_time_step + 1)
            (st1\<lparr>abs_time_step := int32 (abs_time_step st1 + 1)\<rparr>) = Inr st'"
      by (subst (asm) next_loop.simps) (auto split: sum.splits)
    from next_frame_count[OF f] have a: "abs_time_step st1 = abs_time_step st" .
    have "abs_time_step (st1\<lparr>abs_time_step := int32 (abs_time_step st1 + 1)\<rparr>) = int32 (int (Suc m))"
      using a "1.prems"(2) by (simp add: int32_succ)
    from "1.IH"[OF True f n this] True show ?thesis
      by (simp add: Suc_diff_Suc)
  qed
qed

text \<open>
  As long as the counter has not passed \<open>2147483647\<close>, the timesteps stay in order: a frame
  writes the number of the frame, which no timestep written before exceeds.
\<close>

lemma next_loop_ts_ok:
  "next_loop L probs time_dim class_dim rel_time_step st = Inr st' \<Longrightarrow>
   abs_time_step st = int32 (int m) \<Longrightarrow>
   ts_ok lo (int m) (prefix_root st) \<Longrightarrow>
   m + (time_dim - rel_time_step) \<le> 2147483648 \<Longrightarrow>
   ts_ok lo (int (m + (time_dim - rel_time_step))) (prefix_root st')"
proof (induction L probs time_dim class_dim rel_time_step st arbitrary: m rule: next_loop.induct)
  case (1 L probs time_dim class_dim rel_time_step st)
  show ?case
  proof (cases "rel_time_step < time_dim")
    case False
    with "1.prems" show ?thesis by (subst (asm) next_loop.simps) simp
  next
    case True
    with "1.prems"(1) obtain st1 where
      f: "next_frame L (\<lambda>i. probs (rel_time_step * class_dim + i)) class_dim st = Inr st1" and
      n: "next_loop L probs time_dim class_dim (rel_time_step + 1)
            (st1\<lparr>abs_time_step := int32 (abs_time_step st1 + 1)\<rparr>) = Inr st'"
      by (subst (asm) next_loop.simps) (auto split: sum.splits)
    from True "1.prems"(4) have m: "m < 2147483648" by simp
    with "1.prems"(2) have am: "abs_time_step st = int m" by (simp add: int32_id)
    from next_frame_ts_ok[OF f, of lo] "1.prems"(3) am
    have t1: "ts_ok lo (int m) (prefix_root st1)" and a1: "abs_time_step st1 = int m" by simp_all
    from t1 have t2: "ts_ok lo (int (Suc m)) (prefix_root st1)"
      by (rule ts_ok_mono(1)) simp_all
    have c: "abs_time_step (st1\<lparr>abs_time_step := int32 (abs_time_step st1 + 1)\<rparr>) = int32 (int (Suc m))"
      using a1 by (simp add: add.commute)
    have b: "Suc m + (time_dim - (rel_time_step + 1)) \<le> 2147483648"
      using True "1.prems"(4) by simp
    from "1.IH"[OF True f n c _ b] t2 True show ?thesis
      by (simp add: Suc_diff_Suc)
  qed
qed

lemma reached_count: "reached L n st \<Longrightarrow> abs_time_step st = int32 (int n)"
proof (induction rule: reached.induct)
  case (reached_init alphabet_space_label alphabet_size beam_size0 cutoff_prob0 cutoff_top_n0 ext_scorer0)
  then show ?case by (simp add: DecoderState_init_def Let_def int32_def)
next
  case (reached_next n st probs time_dim class_dim st')
  from next_loop_count[OF reached_next(2)[unfolded DecoderState_next_def] reached_next(3)]
  show ?case by simp
qed

lemma reached_ts_ok:
  "reached L n st \<Longrightarrow> n \<le> 2147483648 \<Longrightarrow> ts_ok 0 (int n) (prefix_root st)"
proof (induction rule: reached.induct)
  case (reached_init alphabet_space_label alphabet_size beam_size0 cutoff_prob0 cutoff_top_n0 ext_scorer0)
  then show ?case
    by (simp add: DecoderState_init_def PathTrie_new_def Let_def split: option.splits)
next
  case (reached_next n st probs time_dim class_dim st')
  from reached_next(4) have n: "n \<le> 2147483648" by simp
  from next_loop_ts_ok[OF reached_next(2)[unfolded DecoderState_next_def]
      reached_count[OF reached_next(1)] reached_next(3)[OF n]] reached_next(4)
  show ?case by simp
qed

lemma reached_reachable: "reached L n st \<Longrightarrow> reachable L st"
  by (induction rule: reached.induct) (auto intro: reachable.intros)

lemma reachable_reached: "reachable L st \<Longrightarrow> \<exists>n. reached L n st"
  by (induction rule: reachable.induct) (blast intro: reached.intros)+


lemma ts_ok_descendant:
  assumes "ts_ok lo hi rt" and "lookup rt p = Some x" and "lookup rt (p @ q) = Some y"
  shows "timestep (node x) \<le> timestep (node y)"
proof (cases q)
  case Nil
  with assms show ?thesis by simp
next
  case (Cons c r)
  from ts_ok_lookup[OF assms(1,2)] obtain lo' where x: "ts_ok lo' hi x" by blast
  from assms(2,3) Cons obtain ch where ch: "map_of (children x) c = Some ch"
    and l: "lookup ch r = Some y"
    by (auto simp: lookup_append split: option.splits)
  from x ch have "ts_ok (timestep (node x)) hi ch"
    by (auto simp: ts_ok_unfold[of lo' hi x] dest: ts_ok_children_map_of)
  from ts_ok_lookup[OF this l] obtain lo'' where "timestep (node x) \<le> lo''" "ts_ok lo'' hi y"
    by blast
  then show ?thesis by (auto simp: ts_ok_unfold[of lo'' hi y])
qed

lemma get_path_vec_Nil: "get_path_vec rt [] ot = Inr (push_path rt ot)"
  by (subst get_path_vec.simps) simp

lemma get_path_vec_snoc:
  "get_path_vec rt (p @ [c]) ot =
     (case lookup rt (p @ [c]) of
        None \<Rightarrow> Inl DanglingPointer
      | Some this \<Rightarrow>
          (case get_path_vec rt p ot of
             Inl e \<Rightarrow> Inl e
           | Inr ot1 \<Rightarrow> Inr (push_path this ot1)))"
  by (subst get_path_vec.simps) (simp split: option.splits)

lemma get_path_vec_sorted:
  assumes "ts_ok lo hi rt"
  shows "get_path_vec rt p (os, ts) = Inr (os', ts') \<Longrightarrow>
         \<exists>this os1 ts1. lookup rt p = Some this \<and> os' = os @ os1 \<and> ts' = ts @ ts1 \<and>
            length os1 = length ts1 \<and> sorted ts1 \<and> (\<forall>x\<in>set ts1. x \<le> timestep (node this))"
proof (induction p arbitrary: os' ts' rule: rev_induct)
  case Nil
  then show ?case by (auto simp: get_path_vec_Nil push_path_def split: if_splits)
next
  case (snoc c p)
  from snoc.prems obtain this os0 ts0 where l: "lookup rt (p @ [c]) = Some this"
    and g: "get_path_vec rt p (os, ts) = Inr (os0, ts0)"
    and r: "(os', ts') = push_path this (os0, ts0)"
    by (auto simp: get_path_vec_snoc split: option.splits sum.splits)
  from snoc.IH[OF g] obtain par os1 ts1 where lp: "lookup rt p = Some par"
    and e: "os0 = os @ os1" "ts0 = ts @ ts1" "length os1 = length ts1" "sorted ts1"
    and b: "\<forall>x\<in>set ts1. x \<le> timestep (node par)"
    by blast
  from ts_ok_descendant[OF assms lp l] have m: "timestep (node par) \<le> timestep (node this)" .
  show ?case
  proof (cases "character (node this) \<noteq> ROOT")
    case False
    with r e b m l show ?thesis by (auto simp: push_path_def intro: order_trans)
  next
    case True
    with r e have "os' = os @ (os1 @ [character (node this)])"
      "ts' = ts @ (ts1 @ [timestep (node this)])" by (simp_all add: push_path_def)
    moreover have "sorted (ts1 @ [timestep (node this)])"
      using e(4) b m by (auto simp: sorted_append intro: order_trans)
    moreover have "\<forall>x\<in>set (ts1 @ [timestep (node this)]). x \<le> timestep (node this)"
      using b m by (auto intro: order_trans)
    moreover have "length (os1 @ [character (node this)]) = length (ts1 @ [timestep (node this)])"
      using e(3) by simp
    ultimately show ?thesis using l by blast
  qed
qed

lemma output_loop_sorted:
  assumes "ts_ok lo hi rt"
  shows "output_loop scorer rt scores ps acc = Inr outputs \<Longrightarrow>
         \<forall>w\<in>set acc. length (tokens w) = length (timesteps w) \<and> sorted (timesteps w) \<Longrightarrow>
         \<forall>w\<in>set outputs. length (tokens w) = length (timesteps w) \<and> sorted (timesteps w)"
proof (induction ps arbitrary: acc)
  case Nil
  then show ?case by simp
next
  case (Cons p ps)
  from Cons.prems(1) obtain out where m: "make_output scorer rt scores p = Inr out"
    and l: "output_loop scorer rt scores ps (acc @ [out]) = Inr outputs"
    by (auto split: sum.splits)
  from m obtain os ts where g: "get_path_vec rt p ([], []) = Inr (os, ts)"
    and oo: "tokens out = os" "timesteps out = ts"
    by (auto simp: make_output_def Let_def split: sum.splits)
  from get_path_vec_sorted[OF assms g] oo
  have "length (tokens out) = length (timesteps out) \<and> sorted (timesteps out)" by auto
  with Cons.prems(2) have "\<forall>w\<in>set (acc @ [out]). length (tokens w) = length (timesteps w) \<and> sorted (timesteps w)"
    by simp
  from Cons.IH[OF l this] show ?case .
qed

lemma get_path_vec_length:
  "get_path_vec rt p (os, ts) = Inr (os', ts') \<Longrightarrow> length os = length ts \<Longrightarrow>
   length os' = length ts'"
proof (induction p arbitrary: os' ts' rule: rev_induct)
  case Nil
  then show ?case by (auto simp: get_path_vec_Nil push_path_def split: if_splits)
next
  case (snoc c p)
  from snoc.prems(1) obtain this os0 ts0 where
    g: "get_path_vec rt p (os, ts) = Inr (os0, ts0)"
    and r: "push_path this (os0, ts0) = (os', ts')"
    by (auto simp: get_path_vec_snoc split: option.splits sum.splits)
  from snoc.IH[OF g snoc.prems(2)] r show ?case
    by (auto simp: push_path_def split: if_splits)
qed

lemma output_loop_length:
  "output_loop scorer rt scores ps acc = Inr outputs \<Longrightarrow>
   \<forall>w\<in>set acc. length (tokens w) = length (timesteps w) \<Longrightarrow>
   \<forall>w\<in>set outputs. length (tokens w) = length (timesteps w)"
proof (induction ps arbitrary: acc)
  case Nil
  then show ?case by simp
next
  case (Cons p ps)
  from Cons.prems(1) obtain out where m: "make_output scorer rt scores p = Inr out"
    and l: "output_loop scorer rt scores ps (acc @ [out]) = Inr outputs"
    by (auto split: sum.splits)
  from m obtain os ts where g: "get_path_vec rt p ([], []) = Inr (os, ts)"
    and oo: "tokens out = os" "timesteps out = ts"
    by (auto simp: make_output_def Let_def split: sum.splits)
  from get_path_vec_length[OF g] oo have "length (tokens out) = length (timesteps out)" by simp
  with Cons.prems(2) have "\<forall>w\<in>set (acc @ [out]). length (tokens w) = length (timesteps w)"
    by simp
  from Cons.IH[OF l this] show ?case .
qed

lemma get_path_trie_timestep:
  assumes "get_path_trie flt_inf D this new_char new_timestep lp reset = Inr (this2, found)"
    and "map_of (children this) k = Some ch"
  shows "\<exists>ch2. map_of (children this2) k = Some ch2 \<and>
           (timestep (node ch2) \<noteq> timestep (node ch) \<longrightarrow>
              k = new_char \<and> log_prob_c (node ch) < lp \<and> children ch = [] \<and>
              timestep (node ch2) = new_timestep)"
proof (cases "map_of (children this) new_char")
  case None
  with assms(2) have "k \<noteq> new_char" by auto
  from assms None consider "children this2 = children this"
    | new where "children this2 = children this @ [(new_char, new)]"
    by (auto simp: get_path_trie_def Let_def set_node_def split: option.splits if_splits)
  then show ?thesis using assms(2) by cases (auto simp: map_add_def)
next
  case (Some child)
  let ?child1 = "(if log_prob_c (node child) < lp \<and> children child = []
                  then set_node (\<lambda>f. f\<lparr>log_prob_c := lp, timestep := new_timestep\<rparr>) child
                  else child)"
  let ?child2 = "(if \<not> exists (node ?child1)
                  then set_node (\<lambda>f. f\<lparr>exists := True,
                                          log_prob_b_prev := - flt_inf,
                                          log_prob_nb_prev := - flt_inf,
                                          log_prob_b_cur := - flt_inf,
                                          log_prob_nb_cur := - flt_inf\<rparr>) ?child1
                  else ?child1)"
  from assms(1) Some have "this2 = Trie (node this) (replace_child new_char ?child2 (children this))"
    by (simp add: get_path_trie_def Let_def)
  then have t2: "children this2 = replace_child new_char ?child2 (children this)"
    by simp
  show ?thesis
  proof (cases "k = new_char")
    case False
    with t2 assms(2) show ?thesis by (simp add: map_of_replace_child)
  next
    case True
    with Some assms(2) have c: "child = ch" by simp
    have "map_of (children this2) k = Some ?child2"
      using t2 True Some by (simp add: map_of_replace_child)
    moreover have "timestep (node ?child2) = timestep (node ?child1)"
      by (simp add: set_node_def)
    moreover have "timestep (node ?child1) \<noteq> timestep (node child) \<longrightarrow>
       log_prob_c (node child) < lp \<and> children child = [] \<and> timestep (node ?child1) = new_timestep"
      by (simp add: set_node_def)
    ultimately show ?thesis using True c by metis
  qed
qed

text \<open>
  C7, as amended. \<^verbatim>\<open>get_path_trie\<close> keeps the timestep of the node it is called on, and
  changes the timestep of a child only when the child is the one for \<open>new_char\<close>, its
  \<open>log_prob_c\<close> is strictly below the new one and it has no children; the new timestep is
  then \<open>new_timestep\<close>. \<^verbatim>\<open>get_path_vec\<close> gives as many timesteps as tokens, and so do the
  outputs of \<^verbatim>\<open>decode\<close>. The counter \<open>abs_time_step\<close> is the number of the frames given so
  far, on 32 bits. In every state the decoder reaches with at most \<open>2147483648\<close> frames
  given in all (each frame was then numbered by a counter that had not passed
  \<open>2147483647\<close>), the timesteps of the trie are in order: between 0 and the number of
  frames, and at least the timestep of the parent, so the timestep of a node is at most
  that of every node below it; \<^verbatim>\<open>get_path_vec\<close> and the outputs of \<^verbatim>\<open>decode\<close> then give
  the timesteps in non-decreasing order.
\<close>

theorem timesteps_in_order:
  "(reached L n st \<longrightarrow> n \<le> 2147483648 \<longrightarrow> ts_ok 0 (int n) (prefix_root st)) \<and>
   (reached L n st \<longrightarrow> n \<le> 2147483648 \<longrightarrow> lookup (prefix_root st) p = Some x \<longrightarrow>
      lookup (prefix_root st) (p @ q) = Some y \<longrightarrow> timestep (node x) \<le> timestep (node y)) \<and>
   (get_path_vec rt r ([], []) = Inr ot \<longrightarrow> length (fst ot) = length (snd ot)) \<and>
   (reached L n st \<longrightarrow> n \<le> 2147483648 \<longrightarrow>
      get_path_vec (prefix_root st) r ([], []) = Inr ot \<longrightarrow> sorted (snd ot)) \<and>
   (fst (DecoderState_decode L st) = Inr outputs \<longrightarrow> out \<in> set outputs \<longrightarrow>
      length (tokens out) = length (timesteps out)) \<and>
   (reached L n st \<longrightarrow> n \<le> 2147483648 \<longrightarrow>
      fst (DecoderState_decode L st) = Inr outputs \<longrightarrow> out \<in> set outputs \<longrightarrow>
      sorted (timesteps out)) \<and>
   (reached L n st \<longrightarrow> abs_time_step st = int32 (int n)) \<and>
   (reachable L st \<longrightarrow> (\<exists>m. reached L m st)) \<and>
   (get_path_trie flt_inf D this new_char new_timestep lp reset = Inr (this2, found) \<longrightarrow>
      timestep (node this2) = timestep (node this) \<and>
      (map_of (children this) k = Some ch \<longrightarrow>
         (\<exists>ch2. map_of (children this2) k = Some ch2 \<and>
            (timestep (node ch2) \<noteq> timestep (node ch) \<longrightarrow>
               k = new_char \<and> log_prob_c (node ch) < lp \<and> children ch = [] \<and>
               timestep (node ch2) = new_timestep))))"
proof -
  have a: "reached L n st \<Longrightarrow> n \<le> 2147483648 \<Longrightarrow> ts_ok 0 (int n) (prefix_root st)"
    by (rule reached_ts_ok)
  have b: "reached L n st \<Longrightarrow> n \<le> 2147483648 \<Longrightarrow> lookup (prefix_root st) p = Some x \<Longrightarrow>
      lookup (prefix_root st) (p @ q) = Some y \<Longrightarrow> timestep (node x) \<le> timestep (node y)"
    using ts_ok_descendant[OF reached_ts_ok] by blast
  have c1: "length (fst ot) = length (snd ot)" if "get_path_vec rt r ([], []) = Inr ot"
    using get_path_vec_length[of rt r "[]" "[]" "fst ot" "snd ot"] that by simp
  have c2: "sorted (snd ot)"
    if "reached L n st" "n \<le> 2147483648" "get_path_vec (prefix_root st) r ([], []) = Inr ot"
    using get_path_vec_sorted[OF reached_ts_ok[OF that(1,2)], of r "[]" "[]" "fst ot" "snd ot"] that(3)
    by auto
  have d1: "length (tokens out) = length (timesteps out)"
    if oo: "fst (DecoderState_decode L st) = Inr outputs" "out \<in> set outputs"
  proof -
    from oo(1) obtain scores ps where
      "output_loop (ext_scorer st) (prefix_root st) scores ps [] = Inr outputs"
      by (auto simp: DecoderState_decode_def Let_def split: sum.splits if_splits)
    from output_loop_length[OF this] oo(2) show ?thesis by simp
  qed
  have d2: "sorted (timesteps out)"
    if r: "reached L n st" "n \<le> 2147483648"
      and oo: "fst (DecoderState_decode L st) = Inr outputs" "out \<in> set outputs"
  proof -
    from oo(1) obtain scores ps where
      "output_loop (ext_scorer st) (prefix_root st) scores ps [] = Inr outputs"
      by (auto simp: DecoderState_decode_def Let_def split: sum.splits if_splits)
    from output_loop_sorted[OF reached_ts_ok[OF r] this] oo(2) show ?thesis by simp
  qed
  have e: "timestep (node this2) = timestep (node this)"
    if "get_path_trie flt_inf D this new_char new_timestep lp reset = Inr (this2, found)"
    using get_path_trie_node[OF that] by auto
  have f: "reached L n st \<Longrightarrow> abs_time_step st = int32 (int n)"
    by (rule reached_count)
  have g: "reachable L st \<Longrightarrow> \<exists>m. reached L m st"
    by (rule reachable_reached)
  from a b c1 c2 d1 d2 e f g get_path_trie_timestep show ?thesis by blast
qed

lemma run3:
  "\<exists>st' x y. DecoderState_next lib0 probs3 3 3 st0 = Inr st' \<and>
     fst (DecoderState_decode lib0 st') =
       Inr [\<lparr>tokens = [0, 0], timesteps = [0, 2], confidence = 3\<rparr>] \<and>
     get_path_vec (prefix_root st') [0, 0] ([], []) = Inr ([0, 0], [0, 2]) \<and>
     lookup (prefix_root st') [0] = Some x \<and> lookup (prefix_root st') ([0] @ [0]) = Some y \<and>
     timestep (node x) = 0 \<and> timestep (node y) = 2 \<and> abs_time_step st' = 3"
  by (simp add: DecoderState_next_def next_loop.simps probs3_def int32_def
        fix_defs run_defs remove.simps upt_0_3
        DecoderState_decode_def rescoring_scores_def make_output_def top_paths_def
        get_path_vec.simps push_path_def at_score_def)

theorem timesteps_in_order_witness:
  "reached lib0 0 st0 \<and> reachable lib0 st0 \<and>
   (\<exists>st' x y. DecoderState_next lib0 probs3 3 3 st0 = Inr st' \<and> reached lib0 3 st' \<and>
      (3::nat) \<le> 2147483648 \<and> reachable lib0 st' \<and>
      ts_ok 0 (int 3) (prefix_root st') \<and>
      lookup (prefix_root st') [0] = Some x \<and> lookup (prefix_root st') ([0] @ [0]) = Some y \<and>
      timestep (node x) \<le> timestep (node y) \<and>
      get_path_vec (prefix_root st') [0, 0] ([], []) = Inr ([0, 0], [0, 2]) \<and>
      length (fst ([0, 0 :: int], [0, 2 :: int])) = length (snd ([0, 0 :: int], [0, 2 :: int])) \<and>
      sorted (snd ([0, 0 :: int], [0, 2 :: int])) \<and>
      fst (DecoderState_decode lib0 st') =
        Inr [\<lparr>tokens = [0, 0], timesteps = [0, 2], confidence = 3\<rparr>] \<and>
      sorted (timesteps \<lparr>tokens = [0, 0], timesteps = [0, 2], confidence = 3\<rparr>) \<and>
      abs_time_step st' = int32 (int 3) \<and> abs_time_step st' = 3) \<and>
   (\<exists>this2 ch2. get_path_trie 1000000 None (prefix_root st1) 0 1 0 True = Inr (this2, True) \<and>
      map_of (children (prefix_root st1)) 0 = Some (Trie leaf1 []) \<and>
      map_of (children this2) 0 = Some ch2 \<and> timestep (node ch2) = 1)"
proof -
  have r0: "reached lib0 0 st0" unfolding st0_def by (rule reached_init)
  have q0: "reachable lib0 st0" unfolding st0_def by (rule reachable_init)
  from run3 obtain st' x y where n: "DecoderState_next lib0 probs3 3 3 st0 = Inr st'"
    and d: "fst (DecoderState_decode lib0 st') =
       Inr [\<lparr>tokens = [0, 0], timesteps = [0, 2], confidence = 3\<rparr>]"
    and g: "get_path_vec (prefix_root st') [0, 0] ([], []) = Inr ([0, 0], [0, 2])"
    and lx: "lookup (prefix_root st') [0] = Some x"
    and ly: "lookup (prefix_root st') ([0] @ [0]) = Some y"
    and a3: "abs_time_step st' = 3"
    by blast
  from reached_next[OF r0 n] have r1: "reached lib0 3 st'" by simp
  from q0 n have q1: "reachable lib0 st'" by (rule reachable_next)
  have le: "(3::nat) \<le> 2147483648" by simp
  have m: "map_of (children (prefix_root st1)) 0 = Some (Trie leaf1 [])"
    by (simp add: st1_def)
  have "\<exists>this2. get_path_trie 1000000 None (prefix_root st1) 0 1 0 True = Inr (this2, True) \<and>
          (\<forall>ch2. map_of (children this2) 0 = Some ch2 \<longrightarrow> timestep (node ch2) \<noteq> timestep leaf1)"
    by (simp add: get_path_trie_def st1_def leaf1_def PathTrie_new_def set_node_def)
  then obtain this2 where gt: "get_path_trie 1000000 None (prefix_root st1) 0 1 0 True = Inr (this2, True)"
    and ne: "\<forall>ch2. map_of (children this2) 0 = Some ch2 \<longrightarrow> timestep (node ch2) \<noteq> timestep leaf1"
    by blast
  note t = timesteps_in_order [where L = lib0 and n = 3 and st = st' and p = "[0]" and x = x
      and q = "[0]" and y = y and rt = "prefix_root st'" and r = "[0, 0]"
      and ot = "([0, 0], [0, 2])"
      and outputs = "[\<lparr>tokens = [0, 0], timesteps = [0, 2], confidence = 3\<rparr>]"
      and out = "\<lparr>tokens = [0, 0], timesteps = [0, 2], confidence = 3\<rparr>"
      and flt_inf = 1000000 and D = None and this = "prefix_root st1" and new_char = 0
      and new_timestep = 1 and lp = 0 and reset = True and ?this2.0 = this2 and found = True
      and k = 0 and ch = "Trie leaf1 []"]
  from t r1 le have s1: "ts_ok 0 (int 3) (prefix_root st')" by blast
  from t r1 le lx ly have s2: "timestep (node x) \<le> timestep (node y)" by blast
  from t g have s3: "length (fst ([0, 0 :: int], [0, 2 :: int])) = length (snd ([0, 0 :: int], [0, 2 :: int]))"
    by blast
  from t r1 le g have s3': "sorted (snd ([0, 0 :: int], [0, 2 :: int]))" by blast
  from t r1 le d have s4: "sorted (timesteps \<lparr>tokens = [0, 0], timesteps = [0, 2], confidence = 3\<rparr>)"
    by simp
  from t r1 have s5: "abs_time_step st' = int32 (int 3)" by blast
  from t gt m ne obtain ch2 where c2: "map_of (children this2) 0 = Some ch2" "timestep (node ch2) = 1"
    by auto
  have A: "\<exists>st' x y. DecoderState_next lib0 probs3 3 3 st0 = Inr st' \<and> reached lib0 3 st' \<and>
      (3::nat) \<le> 2147483648 \<and> reachable lib0 st' \<and>
      ts_ok 0 (int 3) (prefix_root st') \<and>
      lookup (prefix_root st') [0] = Some x \<and> lookup (prefix_root st') ([0] @ [0]) = Some y \<and>
      timestep (node x) \<le> timestep (node y) \<and>
      get_path_vec (prefix_root st') [0, 0] ([], []) = Inr ([0, 0], [0, 2]) \<and>
      length (fst ([0, 0 :: int], [0, 2 :: int])) = length (snd ([0, 0 :: int], [0, 2 :: int])) \<and>
      sorted (snd ([0, 0 :: int], [0, 2 :: int])) \<and>
      fst (DecoderState_decode lib0 st') =
        Inr [\<lparr>tokens = [0, 0], timesteps = [0, 2], confidence = 3\<rparr>] \<and>
      sorted (timesteps \<lparr>tokens = [0, 0], timesteps = [0, 2], confidence = 3\<rparr>) \<and>
      abs_time_step st' = int32 (int 3) \<and> abs_time_step st' = 3"
    using n r1 le q1 s1 lx ly s2 g s3 s3' d s4 s5 a3 by blast
  have B: "\<exists>this2 ch2. get_path_trie 1000000 None (prefix_root st1) 0 1 0 True = Inr (this2, True) \<and>
      map_of (children (prefix_root st1)) 0 = Some (Trie leaf1 []) \<and>
      map_of (children this2) 0 = Some ch2 \<and> timestep (node ch2) = 1"
    using gt m c2 by blast
  from r0 q0 A B show ?thesis by blast
qed

text \<open>
  Past that many frames the order is lost. Under \<open>lib1\<close>, the decoder \<open>st0\<close> given
  \<open>2147483647\<close> frames with the blank alone stays as it is but for the counter, which
  reaches \<open>2147483647\<close>; the frame that follows creates the node of the label 0 with that
  timestep, the increment wraps to \<open>- 2147483648\<close>, and the next frame creates the node of
  the label 1 below it with this timestep. The state \<open>stw\<close> is reached with \<open>2147483649\<close>
  frames, a node in it has a timestep above that of its child, and \<^verbatim>\<open>decode\<close> returns
  the timesteps in decreasing order.
\<close>

lemma blank_frame:
  "next_frame lib1 (\<lambda>i. blank_rows (k * 3 + i)) 3 (st0\<lparr>abs_time_step := a\<rparr>) =
     Inr (st0\<lparr>abs_time_step := a\<rparr>)"
  by (simp add: lib1_def blank_rows_def fix_defs run_defs upt_0_3)

lemma blank_run:
  "n = time_dim - k \<Longrightarrow> 0 \<le> a \<Longrightarrow> a + int n \<le> 2147483647 \<Longrightarrow>
   next_loop lib1 blank_rows time_dim 3 k (st0\<lparr>abs_time_step := a\<rparr>) =
     Inr (st0\<lparr>abs_time_step := a + int n\<rparr>)"
proof (induction n arbitrary: k a)
  case 0
  then show ?case by (subst next_loop.simps) simp
next
  case (Suc n)
  from Suc.prems(1) have k: "k < time_dim" and n: "n = time_dim - (k + 1)" by simp_all
  have i: "int32 (a + 1) = a + 1" using Suc.prems(2,3) by (simp add: int32_def)
  have "next_loop lib1 blank_rows time_dim 3 k (st0\<lparr>abs_time_step := a\<rparr>) =
        next_loop lib1 blank_rows time_dim 3 (k + 1) (st0\<lparr>abs_time_step := a + 1\<rparr>)"
    using k by (subst next_loop.simps) (simp add: blank_frame i)
  also have "\<dots> = Inr (st0\<lparr>abs_time_step := (a + 1) + int n\<rparr>)"
    using Suc.prems(2,3) by (intro Suc.IH[OF n]) simp_all
  finally show ?case by (simp add: add.assoc add.commute)
qed

lemma wrap_run:
  "DecoderState_next lib1 rows01 2 3 (st0\<lparr>abs_time_step := 2147483647\<rparr>) = Inr stw"
  by (simp add: DecoderState_next_def next_loop.simps rows01_def lib1_def stw_def int32_def
        fix_defs run_defs remove.simps upt_0_3)

lemma stw_reached: "reached lib1 2147483649 stw"
proof -
  have i: "DecoderState_init lib1 1 2 2 1 3 None = st0"
    by (simp add: st0_def lib1_def lib0_def DecoderState_init_def)
  have "reached lib1 0 (DecoderState_init lib1 1 2 2 1 3 None)" by (rule reached_init)
  then have r0: "reached lib1 0 st0" by (simp only: i)
  have s: "st0\<lparr>abs_time_step := 0\<rparr> = st0" by (simp add: st0_def DecoderState_init_def)
  from blank_run[of 2147483647 2147483647 0 0]
  have "DecoderState_next lib1 blank_rows 2147483647 3 st0 = Inr (st0\<lparr>abs_time_step := 2147483647\<rparr>)"
    by (simp add: DecoderState_next_def s)
  from reached_next[OF r0 this]
  have "reached lib1 (0 + 2147483647) (st0\<lparr>abs_time_step := 2147483647\<rparr>)" .
  from reached_next[OF this wrap_run] show ?thesis by simp
qed

theorem timesteps_wrap:
  "reached lib1 2147483649 stw \<and> reachable lib1 stw \<and>
   map_option timestep (node_at (prefix_root stw) [0]) = Some 2147483647 \<and>
   map_option timestep (node_at (prefix_root stw) ([0] @ [1])) = Some (- 2147483648) \<and>
   get_path_vec (prefix_root stw) [0, 1] ([], []) = Inr ([0, 1], [2147483647, - 2147483648]) \<and>
   fst (DecoderState_decode lib1 stw) =
     Inr [\<lparr>tokens = [0, 1], timesteps = [2147483647, - 2147483648], confidence = 0\<rparr>] \<and>
   \<not> sorted [2147483647, - 2147483648 :: int]"
proof -
  have a: "reached lib1 2147483649 stw" by (rule stw_reached)
  then have b: "reachable lib1 stw" by (rule reached_reachable)
  have c: "map_option timestep (node_at (prefix_root stw) [0]) = Some 2147483647"
    "map_option timestep (node_at (prefix_root stw) ([0] @ [1])) = Some (- 2147483648)"
    by (simp_all add: stw_def node_at_def PathTrie_new_def)
  have d: "get_path_vec (prefix_root stw) [0, 1] ([], []) = Inr ([0, 1], [2147483647, - 2147483648])"
    by (simp add: stw_def fix_defs get_path_vec.simps push_path_def)
  have e: "fst (DecoderState_decode lib1 stw) =
     Inr [\<lparr>tokens = [0, 1], timesteps = [2147483647, - 2147483648], confidence = 0\<rparr>]"
    by (simp add: stw_def lib1_def fix_defs run_defs
          DecoderState_decode_def rescoring_scores_def make_output_def top_paths_def
          get_path_vec.simps push_path_def at_score_def)
  have f: "\<not> sorted [2147483647, - 2147483648 :: int]" by simp
  from a b c d e f show ?thesis by simp
qed


section \<open>The rescoring scores of decode\<close>






section \<open>decode is const\<close>



end
